theory Spec2Isabelle
  imports Main
begin

section \<open>Element types, errors and the heap\<close>

text \<open>
  \<open>SimpleVector\<close> is a template over its element type \<open>Type\<close>. The model takes what the
  code uses of \<open>Type\<close> as a record: \<open>dflt\<close> is the value of \<open>Type()\<close>, \<open>moved x\<close> is the
  state in which an object holding \<open>x\<close> is left after it has been moved from (the identity
  for scalar types, the null pointer for an owning pointer), and \<open>raw i\<close> is what slot \<open>i\<close>
  of a fresh \<open>new Type[n]\<close> holds (the default value for a class type, anything for a
  scalar type). Copying an element yields an equal element, and the element type's
  \<open>operator==\<close> is equality.

  \<open>size_t\<close> is modelled by \<open>nat\<close>: a buffer of \<open>2^63\<close> elements cannot be allocated, so the
  arithmetic of the code does not wrap on a state it can reach. Allocation is taken to
  succeed. \<open>assert\<close> is taken as compiled in (no \<open>NDEBUG\<close>): a failed assertion ends the
  run with \<open>AssertFailed\<close>. An access outside an allocated block, through a null pointer or
  to a deleted block has undefined behaviour; the model ends the run with \<open>Undefined\<close>.
\<close>

record 'a elem_type =
  dflt :: 'a
  moved :: "'a \<Rightarrow> 'a"
  raw :: "nat \<Rightarrow> 'a"

datatype error = OutOfRange | AssertFailed | Undefined

type_synonym addr = nat

text \<open>
  The heap holds the arrays made by \<open>new Type[n]\<close>: the address of an array is its index
  in the list, \<open>None\<close> marks an array that has been deleted. A pointer is an array's
  address or null (\<open>None\<close>); a position inside an array is a pointer and an offset.
\<close>

type_synonym 'a heap = "'a list option list"

definition block :: "'a heap \<Rightarrow> addr \<Rightarrow> 'a list option" where
  "block h a = (if a < length h then h ! a else None)"

definition bnd :: "error + 'a \<Rightarrow> ('a \<Rightarrow> error + 'b) \<Rightarrow> error + 'b" where
  "bnd m f = (case m of Inl e \<Rightarrow> Inl e | Inr x \<Rightarrow> f x)"

text \<open>Reading \<open>p[i]\<close> and writing \<open>p[i] = v\<close> through a raw pointer.\<close>

definition load :: "'a heap \<Rightarrow> addr option \<Rightarrow> nat \<Rightarrow> error + 'a" where
  "load h p i =
     (case p of None \<Rightarrow> Inl Undefined
      | Some a \<Rightarrow>
          (case block h a of None \<Rightarrow> Inl Undefined
           | Some blk \<Rightarrow> if i < length blk then Inr (blk ! i) else Inl Undefined))"

definition store :: "'a heap \<Rightarrow> addr option \<Rightarrow> nat \<Rightarrow> 'a \<Rightarrow> error + 'a heap" where
  "store h p i v =
     (case p of None \<Rightarrow> Inl Undefined
      | Some a \<Rightarrow>
          (case block h a of None \<Rightarrow> Inl Undefined
           | Some blk \<Rightarrow>
               if i < length blk then Inr (h[a := Some (blk[i := v])]) else Inl Undefined))"

section \<open>array\_ptr.h\<close>

text \<open>
  \<open>ArrayPtr(size_t size)\<close>: the null pointer when \<open>size == 0\<close>, else a fresh array of
  \<open>size\<close> default-initialised elements.
\<close>

definition ArrayPtr_new :: "'a elem_type \<Rightarrow> nat \<Rightarrow> 'a heap \<Rightarrow> addr option \<times> 'a heap" where
  "ArrayPtr_new T n h =
     (if n = 0 then (None, h)
      else (Some (length h), h @ [Some (map (raw T) [0..<n])]))"

text \<open>\<open>~ArrayPtr()\<close>: \<open>delete[] raw_ptr_\<close>, which does nothing on the null pointer.\<close>

definition ArrayPtr_delete :: "addr option \<Rightarrow> 'a heap \<Rightarrow> error + 'a heap" where
  "ArrayPtr_delete p h =
     (case p of None \<Rightarrow> Inr h
      | Some a \<Rightarrow>
          (case block h a of None \<Rightarrow> Inl Undefined
           | Some blk \<Rightarrow> Inr (h[a := None])))"

section \<open>The algorithms of the standard library the code calls\<close>

text \<open>
  Each algorithm is the loop the standard gives for it, one element at a time, so that
  overlapping ranges and repeated moves behave as in the program. A range is given by a
  pointer and two offsets; a range whose end lies before its start is undefined.
\<close>

text \<open>\<open>std::copy(src + first, src + first + n, dst + d)\<close>\<close>

fun copy_n :: "nat \<Rightarrow> 'a heap \<Rightarrow> addr option \<Rightarrow> nat \<Rightarrow> addr option \<Rightarrow> nat \<Rightarrow> error + 'a heap" where
  "copy_n 0 h src first dst d = Inr h"
| "copy_n (Suc n) h src first dst d =
     bnd (load h src first) (\<lambda>v.
     bnd (store h dst d v) (\<lambda>h'.
     copy_n n h' src (Suc first) dst (Suc d)))"

definition std_copy :: "'a heap \<Rightarrow> addr option \<Rightarrow> nat \<Rightarrow> nat \<Rightarrow> addr option \<Rightarrow> nat \<Rightarrow> error + 'a heap" where
  "std_copy h src first lst dst d =
     (if lst < first then Inl Undefined else copy_n (lst - first) h src first dst d)"

text \<open>\<open>std::copy_backward(src + last - n, src + last, dst + d_last)\<close>\<close>

fun copy_backward_n :: "nat \<Rightarrow> 'a heap \<Rightarrow> addr option \<Rightarrow> nat \<Rightarrow> addr option \<Rightarrow> nat \<Rightarrow> error + 'a heap" where
  "copy_backward_n 0 h src lst dst d_last = Inr h"
| "copy_backward_n (Suc n) h src lst dst d_last =
     (if lst = 0 \<or> d_last = 0 then Inl Undefined
      else
        bnd (load h src (lst - 1)) (\<lambda>v.
        bnd (store h dst (d_last - 1) v) (\<lambda>h'.
        copy_backward_n n h' src (lst - 1) dst (d_last - 1))))"

definition std_copy_backward :: "'a heap \<Rightarrow> addr option \<Rightarrow> nat \<Rightarrow> nat \<Rightarrow> addr option \<Rightarrow> nat \<Rightarrow> error + 'a heap" where
  "std_copy_backward h src first lst dst d_last =
     (if lst < first then Inl Undefined else copy_backward_n (lst - first) h src lst dst d_last)"

text \<open>
  \<open>std::move(src + first, src + first + n, dst + d)\<close>: each element is move-assigned, which
  leaves the source element in its moved-from state.
\<close>

fun move_n :: "'a elem_type \<Rightarrow> nat \<Rightarrow> 'a heap \<Rightarrow> addr option \<Rightarrow> nat \<Rightarrow> addr option \<Rightarrow> nat \<Rightarrow> error + 'a heap" where
  "move_n T 0 h src first dst d = Inr h"
| "move_n T (Suc n) h src first dst d =
     bnd (load h src first) (\<lambda>v.
     bnd (store h dst d v) (\<lambda>h1.
     bnd (store h1 src first (moved T v)) (\<lambda>h2.
     move_n T n h2 src (Suc first) dst (Suc d))))"

definition std_move :: "'a elem_type \<Rightarrow> 'a heap \<Rightarrow> addr option \<Rightarrow> nat \<Rightarrow> nat \<Rightarrow> addr option \<Rightarrow> nat \<Rightarrow> error + 'a heap" where
  "std_move T h src first lst dst d =
     (if lst < first then Inl Undefined else move_n T (lst - first) h src first dst d)"

text \<open>\<open>std::move_backward(src + last - n, src + last, dst + d_last)\<close>\<close>

fun move_backward_n :: "'a elem_type \<Rightarrow> nat \<Rightarrow> 'a heap \<Rightarrow> addr option \<Rightarrow> nat \<Rightarrow> addr option \<Rightarrow> nat \<Rightarrow> error + 'a heap" where
  "move_backward_n T 0 h src lst dst d_last = Inr h"
| "move_backward_n T (Suc n) h src lst dst d_last =
     (if lst = 0 \<or> d_last = 0 then Inl Undefined
      else
        bnd (load h src (lst - 1)) (\<lambda>v.
        bnd (store h dst (d_last - 1) v) (\<lambda>h1.
        bnd (store h1 src (lst - 1) (moved T v)) (\<lambda>h2.
        move_backward_n T n h2 src (lst - 1) dst (d_last - 1)))))"

definition std_move_backward :: "'a elem_type \<Rightarrow> 'a heap \<Rightarrow> addr option \<Rightarrow> nat \<Rightarrow> nat \<Rightarrow> addr option \<Rightarrow> nat \<Rightarrow> error + 'a heap" where
  "std_move_backward T h src first lst dst d_last =
     (if lst < first then Inl Undefined
      else move_backward_n T (lst - first) h src lst dst d_last)"

text \<open>\<open>std::fill(p + first, p + first + n, value)\<close>\<close>

fun fill_n :: "nat \<Rightarrow> 'a heap \<Rightarrow> addr option \<Rightarrow> nat \<Rightarrow> 'a \<Rightarrow> error + 'a heap" where
  "fill_n 0 h p first v = Inr h"
| "fill_n (Suc n) h p first v =
     bnd (store h p first v) (\<lambda>h'. fill_n n h' p (Suc first) v)"

definition std_fill :: "'a heap \<Rightarrow> addr option \<Rightarrow> nat \<Rightarrow> nat \<Rightarrow> 'a \<Rightarrow> error + 'a heap" where
  "std_fill h p first lst v =
     (if lst < first then Inl Undefined else fill_n (lst - first) h p first v)"

text \<open>
  \<open>std::equal(a + first, a + first + n, b + d)\<close>: the answer is \<open>false\<close> at the first pair
  of unequal elements.
\<close>

fun equal_n :: "nat \<Rightarrow> 'a heap \<Rightarrow> addr option \<Rightarrow> nat \<Rightarrow> addr option \<Rightarrow> nat \<Rightarrow> error + bool" where
  "equal_n 0 h a first b d = Inr True"
| "equal_n (Suc n) h a first b d =
     bnd (load h a first) (\<lambda>x.
     bnd (load h b d) (\<lambda>y.
     if x = y then equal_n n h a (Suc first) b (Suc d) else Inr False))"

definition std_equal :: "'a heap \<Rightarrow> addr option \<Rightarrow> nat \<Rightarrow> nat \<Rightarrow> addr option \<Rightarrow> nat \<Rightarrow> error + bool" where
  "std_equal h a first lst b d =
     (if lst < first then Inl Undefined else equal_n (lst - first) h a first b d)"

text \<open>Copying the elements of an \<open>std::initializer_list\<close> into an array.\<close>

fun copy_init :: "'a list \<Rightarrow> 'a heap \<Rightarrow> addr option \<Rightarrow> nat \<Rightarrow> error + 'a heap" where
  "copy_init [] h dst d = Inr h"
| "copy_init (x # xs) h dst d = bnd (store h dst d x) (\<lambda>h'. copy_init xs h' dst (Suc d))"

section \<open>simple\_vector.h\<close>

text \<open>
  The fields of a \<open>SimpleVector\<close>, \<open>items_\<close>, \<open>capacity_\<close> and \<open>size_\<close> in the source;
  \<open>m_items\<close> is the raw pointer held by the \<open>ArrayPtr\<close>.
  A member function is a function from the heap and the fields of \<open>*this\<close> to the heap and
  fields after the call, with the returned value in front when there is one.
\<close>

record vec =
  m_items :: "addr option"
  m_capacity :: nat
  m_size :: nat

text \<open>\<open>SimpleVector() noexcept = default\<close>\<close>

definition SimpleVector_default :: vec where
  "SimpleVector_default = \<lparr>m_items = None, m_capacity = 0, m_size = 0\<rparr>"

text \<open>\<open>SimpleVector(size_t size, const Type& value)\<close>\<close>

definition SimpleVector_fill :: "'a elem_type \<Rightarrow> nat \<Rightarrow> 'a \<Rightarrow> 'a heap \<Rightarrow> error + 'a heap \<times> vec" where
  "SimpleVector_fill T sz value h =
     (case ArrayPtr_new T sz h of (p, h1) \<Rightarrow>
        bnd (std_fill h1 p 0 sz value) (\<lambda>h2.
        Inr (h2, \<lparr>m_items = p, m_capacity = sz, m_size = sz\<rparr>)))"

text \<open>\<open>explicit SimpleVector(size_t size)\<close>\<close>

definition SimpleVector_size :: "'a elem_type \<Rightarrow> nat \<Rightarrow> 'a heap \<Rightarrow> error + 'a heap \<times> vec" where
  "SimpleVector_size T sz h = SimpleVector_fill T sz (dflt T) h"

text \<open>\<open>SimpleVector(std::initializer_list<Type> init)\<close>\<close>

definition SimpleVector_init :: "'a elem_type \<Rightarrow> 'a list \<Rightarrow> 'a heap \<Rightarrow> error + 'a heap \<times> vec" where
  "SimpleVector_init T init h =
     (case ArrayPtr_new T (length init) h of (p, h1) \<Rightarrow>
        bnd (copy_init init h1 p 0) (\<lambda>h2.
        Inr (h2, \<lparr>m_items = p, m_capacity = length init, m_size = length init\<rparr>)))"

text \<open>\<open>SimpleVector(const SimpleVector& other)\<close>\<close>

definition SimpleVector_copy :: "'a elem_type \<Rightarrow> vec \<Rightarrow> 'a heap \<Rightarrow> error + 'a heap \<times> vec" where
  "SimpleVector_copy T other h =
     (case ArrayPtr_new T (m_size other) h of (p, h1) \<Rightarrow>
        bnd (std_copy h1 (m_items other) 0 (m_size other) p 0) (\<lambda>h2.
        Inr (h2, \<lparr>m_items = p, m_capacity = m_size other, m_size = m_size other\<rparr>)))"

text \<open>
  \<open>Fill(first, last)\<close>, both positions in the array at \<open>p\<close>: the assertion, then the loop
  storing \<open>Type()\<close>.
\<close>

definition Fill :: "'a elem_type \<Rightarrow> addr option \<Rightarrow> nat \<Rightarrow> nat \<Rightarrow> 'a heap \<Rightarrow> error + 'a heap" where
  "Fill T p first lst h =
     (if \<not> first < lst then Inl AssertFailed
      else fill_n (lst - first) h p first (dflt T))"

text \<open>
  \<open>Resize(new_size)\<close>: three \<open>if\<close> statements in a row, none of them an \<open>else\<close> branch of
  another; the second reads the \<open>size_\<close> the first may have written.
\<close>

definition Resize :: "'a elem_type \<Rightarrow> nat \<Rightarrow> 'a heap \<times> vec \<Rightarrow> error + 'a heap \<times> vec" where
  "Resize T new_size hv =
     (case hv of (h, v) \<Rightarrow>
        let v1 = (if new_size \<le> m_size v then v\<lparr>m_size := new_size\<rparr> else v) in
        bnd (if new_size \<le> m_capacity v1
             then Fill T (m_items v1) (m_size v1) (m_size v1 + new_size) h
             else Inr h) (\<lambda>h1.
        if new_size > m_capacity v1 then
          let new_capacity = max new_size (m_capacity v1 * 2) in
          (case ArrayPtr_new T new_capacity h1 of (temp, h2) \<Rightarrow>
             bnd (Fill T temp 0 new_capacity h2) (\<lambda>h3.
             bnd (std_move T h3 (m_items v1) 0 (m_capacity v1) temp 0) (\<lambda>h4.
             bnd (ArrayPtr_delete (m_items v1) h4) (\<lambda>h5.
             Inr (h5, \<lparr>m_items = temp, m_capacity = new_capacity, m_size = new_size\<rparr>)))))
        else Inr (h1, v1)))"

text \<open>
  \<open>operator[]\<close> of \<open>ArrayPtr\<close>, \<open>raw_ptr_[index]\<close>: the reference to an element is the
  address of its array and its offset.
\<close>

definition ArrayPtr_index :: "'a heap \<Rightarrow> addr option \<Rightarrow> nat \<Rightarrow> error + addr \<times> nat" where
  "ArrayPtr_index h p i =
     (case p of None \<Rightarrow> Inl Undefined
      | Some a \<Rightarrow>
          (case block h a of None \<Rightarrow> Inl Undefined
           | Some blk \<Rightarrow> if i < length blk then Inr (a, i) else Inl Undefined))"

text \<open>\<open>Type& operator[](size_t index) noexcept\<close>\<close>

definition index_op :: "nat \<Rightarrow> 'a heap \<times> vec \<Rightarrow> error + addr \<times> nat" where
  "index_op index hv = (case hv of (h, v) \<Rightarrow> ArrayPtr_index h (m_items v) index)"

text \<open>The statement \<open>v[index] = x\<close>.\<close>

definition assign_at :: "nat \<Rightarrow> 'a \<Rightarrow> 'a heap \<times> vec \<Rightarrow> error + 'a heap \<times> vec" where
  "assign_at index x hv =
     (case hv of (h, v) \<Rightarrow> bnd (store h (m_items v) index x) (\<lambda>h1. Inr (h1, v)))"

text \<open>
  \<open>Type& At(size_t index)\<close>: the exception or the reference, together with the heap and
  the fields the call leaves behind in either case.
\<close>

definition At :: "nat \<Rightarrow> 'a heap \<times> vec \<Rightarrow> (error + addr \<times> nat) \<times> 'a heap \<times> vec" where
  "At index hv =
     (case hv of (h, v) \<Rightarrow>
        if index \<ge> m_size v then (Inl OutOfRange, h, v)
        else (ArrayPtr_index h (m_items v) index, h, v))"

text \<open>\<open>void Clear() noexcept\<close>\<close>

definition Clear :: "'a heap \<times> vec \<Rightarrow> error + 'a heap \<times> vec" where
  "Clear hv = (case hv of (h, v) \<Rightarrow> Inr (h, v\<lparr>m_size := 0\<rparr>))"

text \<open>
  \<open>PushBack\<close> takes its argument by reference. What the reference denotes is either an
  object of the caller's that lies in no array of the heap (a local variable, a
  temporary), given by its value, or an element of an array, given by the address of the
  array and the offset, as in \<open>v.PushBack(v[0])\<close>. The function reads the object when it
  assigns from it, and the move form then leaves it in its moved-from state.
\<close>

datatype 'a arg = Value 'a | Ref addr nat

fun read_arg :: "'a heap \<Rightarrow> 'a arg \<Rightarrow> error + 'a" where
  "read_arg h (Value x) = Inr x"
| "read_arg h (Ref a i) = load h (Some a) i"

fun leave_moved :: "'a elem_type \<Rightarrow> 'a heap \<Rightarrow> 'a arg \<Rightarrow> 'a \<Rightarrow> error + 'a heap" where
  "leave_moved T h (Value y) x = Inr h"
| "leave_moved T h (Ref a i) x = store h (Some a) i (moved T x)"

text \<open>
  \<open>void PushBack(const Type& item)\<close>. In the second branch \<open>item\<close> is read after
  \<open>Resize\<close> has returned, that is after the former array has been deleted.
\<close>

definition PushBack :: "'a elem_type \<Rightarrow> 'a arg \<Rightarrow> 'a heap \<times> vec \<Rightarrow> error + 'a heap \<times> vec" where
  "PushBack T item hv =
     (case hv of (h, v) \<Rightarrow>
        if m_size v < m_capacity v then
          bnd (read_arg h item) (\<lambda>x.
          bnd (store h (m_items v) (m_size v) x) (\<lambda>h1.
          Inr (h1, v\<lparr>m_size := m_size v + 1\<rparr>)))
        else if m_size v = m_capacity v then
          bnd (Resize T (m_capacity v + 1) (h, v)) (\<lambda>(h1, v1).
          bnd (read_arg h1 item) (\<lambda>x.
          bnd (store h1 (m_items v1) (m_size v1 - 1) x) (\<lambda>h2.
          Inr (h2, v1))))
        else Inr (h, v))"

text \<open>\<open>void PushBack(Type&& item)\<close>\<close>

definition PushBack_move :: "'a elem_type \<Rightarrow> 'a arg \<Rightarrow> 'a heap \<times> vec \<Rightarrow> error + 'a heap \<times> vec" where
  "PushBack_move T item hv =
     (case hv of (h, v) \<Rightarrow>
        if m_size v < m_capacity v then
          bnd (read_arg h item) (\<lambda>x.
          bnd (store h (m_items v) (m_size v) x) (\<lambda>h1.
          bnd (leave_moved T h1 item x) (\<lambda>h2.
          Inr (h2, v\<lparr>m_size := m_size v + 1\<rparr>))))
        else if m_size v = m_capacity v then
          bnd (Resize T (m_capacity v + 1) (h, v)) (\<lambda>(h1, v1).
          bnd (read_arg h1 item) (\<lambda>x.
          bnd (store h1 (m_items v1) (m_size v1 - 1) x) (\<lambda>h2.
          bnd (leave_moved T h2 item x) (\<lambda>h3.
          Inr (h3, v1)))))
        else Inr (h, v))"

text \<open>
  \<open>Iterator Insert(ConstIterator pos, const Type& value)\<close>. An iterator is a pointer into
  the vector's array; the model passes the iterator \<open>begin() + pos\<close> as the offset \<open>pos\<close>,
  which is the \<open>count\<close> of the source, and returns an iterator as the pair of the array
  pointer and the offset. The source writes \<open>*pos = value\<close> through the \<open>ConstIterator\<close>;
  the model takes it as the write to the element at \<open>pos\<close>. The array that \<open>temp\<close> holds
  after \<open>items_.swap(temp)\<close> is deleted when \<open>temp\<close> goes out of scope.
\<close>

definition Insert ::
  "'a elem_type \<Rightarrow> nat \<Rightarrow> 'a \<Rightarrow> 'a heap \<times> vec \<Rightarrow> error + (addr option \<times> nat) \<times> 'a heap \<times> vec" where
  "Insert T pos value hv =
     (case hv of (h, v) \<Rightarrow>
        if \<not> pos \<le> m_size v then Inl AssertFailed
        else
          let count = pos in
          bnd (if m_size v < m_capacity v then
                 bnd (std_copy_backward h (m_items v) count (m_size v) (m_items v) (m_size v + 1)) (\<lambda>h1.
                 bnd (store h1 (m_items v) pos value) (\<lambda>h2.
                 Inr (h2, v)))
               else
                 let new_capacity = max (m_size v + 1) (m_capacity v * 2) in
                 (case ArrayPtr_new T new_capacity h of (temp, h1) \<Rightarrow>
                    bnd (std_copy h1 (m_items v) 0 pos temp 0) (\<lambda>h2.
                    bnd (store h2 temp count value) (\<lambda>h3.
                    bnd (std_copy h3 (m_items v) pos (m_size v) temp (count + 1)) (\<lambda>h4.
                    bnd (ArrayPtr_delete (m_items v) h4) (\<lambda>h5.
                    Inr (h5, v\<lparr>m_items := temp, m_capacity := new_capacity\<rparr>)))))))
            (\<lambda>(h', v').
               let v'' = v'\<lparr>m_size := m_size v' + 1\<rparr> in
               Inr ((m_items v'', count), h', v'')))"

text \<open>\<open>Iterator Insert(ConstIterator pos, Type&& value)\<close>\<close>

definition Insert_move ::
  "'a elem_type \<Rightarrow> nat \<Rightarrow> 'a \<Rightarrow> 'a heap \<times> vec \<Rightarrow> error + (addr option \<times> nat) \<times> 'a heap \<times> vec" where
  "Insert_move T pos value hv =
     (case hv of (h, v) \<Rightarrow>
        if \<not> pos \<le> m_size v then Inl AssertFailed
        else
          let count = pos in
          bnd (if m_capacity v = 0 then
                 (case ArrayPtr_new T 1 h of (temp, h1) \<Rightarrow>
                    bnd (store h1 temp count value) (\<lambda>h2.
                    bnd (ArrayPtr_delete (m_items v) h2) (\<lambda>h3.
                    Inr (h3, v\<lparr>m_items := temp, m_capacity := m_capacity v + 1\<rparr>))))
               else if m_size v < m_capacity v then
                 bnd (std_move_backward T h (m_items v) count (m_size v) (m_items v) (m_size v + 1)) (\<lambda>h1.
                 bnd (store h1 (m_items v) count value) (\<lambda>h2.
                 Inr (h2, v)))
               else
                 let new_capacity = max (m_size v + 1) (m_capacity v * 2) in
                 (case ArrayPtr_new T new_capacity h of (temp, h1) \<Rightarrow>
                    bnd (std_move T h1 (m_items v) 0 (m_size v) temp 0) (\<lambda>h2.
                    bnd (std_move_backward T h2 (m_items v) count (m_size v) temp (m_size v + 1)) (\<lambda>h3.
                    bnd (store h3 temp count value) (\<lambda>h4.
                    bnd (ArrayPtr_delete (m_items v) h4) (\<lambda>h5.
                    Inr (h5, v\<lparr>m_items := temp, m_capacity := new_capacity\<rparr>)))))))
            (\<lambda>(h', v').
               let v'' = v'\<lparr>m_size := m_size v' + 1\<rparr> in
               bnd (ArrayPtr_index h' (m_items v'') count) (\<lambda>r.
               Inr ((Some (fst r), snd r), h', v''))))"

text \<open>\<open>void PopBack() noexcept\<close>\<close>

definition PopBack :: "'a heap \<times> vec \<Rightarrow> error + 'a heap \<times> vec" where
  "PopBack hv =
     (case hv of (h, v) \<Rightarrow>
        if m_size v = 0 then Inl AssertFailed
        else Inr (h, v\<lparr>m_size := m_size v - 1\<rparr>))"

text \<open>
  \<open>Iterator Erase(ConstIterator pos)\<close>, with \<open>pos\<close> an offset as in \<open>Insert\<close>. The second
  assertion, \<open>pos >= begin()\<close>, holds of every offset.
\<close>

definition Erase ::
  "'a elem_type \<Rightarrow> nat \<Rightarrow> 'a heap \<times> vec \<Rightarrow> error + (addr option \<times> nat) \<times> 'a heap \<times> vec" where
  "Erase T pos hv =
     (case hv of (h, v) \<Rightarrow>
        if pos = m_size v then Inl AssertFailed
        else
          let count = pos in
          bnd (std_move T h (m_items v) (count + 1) (m_size v) (m_items v) count) (\<lambda>h1.
          let v1 = v\<lparr>m_size := m_size v - 1\<rparr> in
          bnd (ArrayPtr_index h1 (m_items v1) count) (\<lambda>r.
          Inr ((Some (fst r), snd r), h1, v1))))"

text \<open>\<open>void Reserve(size_t new_capacity)\<close>\<close>

definition Reserve :: "'a elem_type \<Rightarrow> nat \<Rightarrow> 'a heap \<times> vec \<Rightarrow> error + 'a heap \<times> vec" where
  "Reserve T new_capacity hv =
     (case hv of (h, v) \<Rightarrow>
        if new_capacity > m_capacity v then
          (case ArrayPtr_new T new_capacity h of (temp, h1) \<Rightarrow>
             bnd (if m_size v > 0 then std_copy h1 (m_items v) 0 (m_size v) temp 0
                  else Inr h1) (\<lambda>h2.
             bnd (ArrayPtr_delete (m_items v) h2) (\<lambda>h3.
             Inr (h3, v\<lparr>m_items := temp, m_capacity := new_capacity\<rparr>))))
        else Inr (h, v))"

text \<open>\<open>SimpleVector(ReserveProxyObj obj)\<close>, with \<open>obj.capacity_to_reserve_\<close> as argument.\<close>

definition SimpleVector_reserve :: "'a elem_type \<Rightarrow> nat \<Rightarrow> 'a heap \<Rightarrow> error + 'a heap \<times> vec" where
  "SimpleVector_reserve T capacity_to_reserve h =
     Reserve T capacity_to_reserve (h, SimpleVector_default)"

section \<open>Several vectors: the object store\<close>

text \<open>
  A program state is the heap and the vector objects, each named by its address. An
  object that no constructor has run on yet reads as the default-constructed vector.
  \<open>call this m\<close> runs the member function \<open>m\<close> on the object at \<open>this\<close>.
\<close>

record 'a state =
  heap :: "'a heap"
  objs :: "nat \<Rightarrow> vec"

definition call :: "nat \<Rightarrow> ('a heap \<times> vec \<Rightarrow> error + 'a heap \<times> vec) \<Rightarrow> 'a state \<Rightarrow> error + 'a state" where
  "call this m s =
     bnd (m (heap s, objs s this)) (\<lambda>(h, v).
     Inr \<lparr>heap = h, objs = (objs s)(this := v)\<rparr>)"

text \<open>Running a constructor on the object at \<open>this\<close>.\<close>

definition construct :: "nat \<Rightarrow> ('a heap \<Rightarrow> error + 'a heap \<times> vec) \<Rightarrow> 'a state \<Rightarrow> error + 'a state" where
  "construct this ctor s =
     bnd (ctor (heap s)) (\<lambda>(h, v).
     Inr \<lparr>heap = h, objs = (objs s)(this := v)\<rparr>)"

text \<open>\<open>void swap(SimpleVector& other) noexcept\<close>\<close>

definition swap :: "nat \<Rightarrow> nat \<Rightarrow> 'a state \<Rightarrow> 'a state" where
  "swap this other s =
     (let a = objs s this; b = objs s other in
      s\<lparr>objs := (objs s)(this := b, other := a)\<rparr>)"

text \<open>
  \<open>SimpleVector(SimpleVector&& other)\<close>: \<open>items_\<close> is initialised with a new array of
  \<open>other.capacity_\<close> elements, the counters with zero, and then the two are swapped.
\<close>

definition SimpleVector_move :: "'a elem_type \<Rightarrow> nat \<Rightarrow> nat \<Rightarrow> 'a state \<Rightarrow> 'a state" where
  "SimpleVector_move T this other s =
     (case ArrayPtr_new T (m_capacity (objs s other)) (heap s) of (p, h1) \<Rightarrow>
        swap this other
          \<lparr>heap = h1, objs = (objs s)(this := \<lparr>m_items = p, m_capacity = 0, m_size = 0\<rparr>)\<rparr>)"

text \<open>
  \<open>SimpleVector& operator=(const SimpleVector& rhs)\<close>: the copy \<open>temp\<close>, the swap, and the
  destruction of \<open>temp\<close>, which then holds the former array of \<open>*this\<close>.
\<close>

definition copy_assign :: "'a elem_type \<Rightarrow> nat \<Rightarrow> nat \<Rightarrow> 'a state \<Rightarrow> error + 'a state" where
  "copy_assign T this rhs s =
     (if this \<noteq> rhs then
        bnd (SimpleVector_copy T (objs s rhs) (heap s)) (\<lambda>(h1, temp).
        bnd (ArrayPtr_delete (m_items (objs s this)) h1) (\<lambda>h2.
        Inr \<lparr>heap = h2, objs = (objs s)(this := temp)\<rparr>))
      else Inr s)"

text \<open>
  \<open>SimpleVector& operator=(SimpleVector&& rhs) noexcept\<close>: the move assignment of
  \<open>ArrayPtr\<close> deletes the array held and takes the pointer of \<open>rhs.items_\<close>, leaving null.
\<close>

definition move_assign :: "nat \<Rightarrow> nat \<Rightarrow> 'a state \<Rightarrow> error + 'a state" where
  "move_assign this rhs s =
     (if this \<noteq> rhs then
        let a = objs s this; b = objs s rhs in
        bnd (ArrayPtr_delete (m_items a) (heap s)) (\<lambda>h1.
        Inr \<lparr>heap = h1,
             objs = (objs s)
               (this := \<lparr>m_items = m_items b, m_capacity = m_capacity b, m_size = m_size b\<rparr>,
                rhs := \<lparr>m_items = None, m_capacity = 0, m_size = 0\<rparr>)\<rparr>)
      else Inr s)"

text \<open>\<open>bool operator==(const SimpleVector<Type>& lhs, const SimpleVector<Type>& rhs)\<close>\<close>

definition operator_eq :: "nat \<Rightarrow> nat \<Rightarrow> 'a state \<Rightarrow> error + bool" where
  "operator_eq lhs rhs s =
     (if lhs = rhs then Inr True
      else if m_size (objs s lhs) \<noteq> m_size (objs s rhs) then Inr False
      else std_equal (heap s) (m_items (objs s lhs)) 0 (m_size (objs s lhs))
             (m_items (objs s rhs)) 0)"

text \<open>
  What a vector holds: the elements at the offsets below \<open>size_\<close> of its array, \<open>None\<close>
  when the array does not have that many.
\<close>

definition elems :: "'a heap \<Rightarrow> vec \<Rightarrow> 'a list option" where
  "elems h v =
     (if m_size v = 0 then Some []
      else
        (case m_items v of None \<Rightarrow> None
         | Some a \<Rightarrow>
             (case block h a of None \<Rightarrow> None
              | Some blk \<Rightarrow> if m_size v \<le> length blk then Some (take (m_size v) blk) else None)))"

text \<open>
  A vector is well formed when \<open>size_ \<le> capacity_\<close> and \<open>items_\<close> is null with no
  capacity, or points to a live array of at least \<open>capacity_\<close> elements.
\<close>

definition valid :: "'a heap \<Rightarrow> vec \<Rightarrow> bool" where
  "valid h v =
     (m_size v \<le> m_capacity v \<and>
      (case m_items v of None \<Rightarrow> m_capacity v = 0
       | Some a \<Rightarrow>
           (case block h a of None \<Rightarrow> False
            | Some blk \<Rightarrow> m_capacity v \<le> length blk)))"

text \<open>
  Two element types to run the code on. \<open>int_type\<close> is \<open>int\<close>: moving copies, and a fresh
  array holds whatever was there (here \<open>-1\<close>). \<open>owner_type\<close> is an owning pointer such as
  \<open>std::unique_ptr<int>\<close>, as the object it points to or \<open>None\<close> for null: its default
  value is null and moving from it leaves null.
\<close>

definition int_type :: "int elem_type" where
  "int_type = \<lparr>dflt = 0, moved = (\<lambda>x. x), raw = (\<lambda>i. - 1)\<rparr>"

definition owner_type :: "int option elem_type" where
  "owner_type = \<lparr>dflt = None, moved = (\<lambda>x. None), raw = (\<lambda>i. None)\<rparr>"

text \<open>The slots \<open>[0, capacity_)\<close> of a vector's array, live and dead.\<close>

definition slots :: "'a heap \<Rightarrow> vec \<Rightarrow> 'a list" where
  "slots h v =
     (case m_items v of None \<Rightarrow> []
      | Some a \<Rightarrow> (case block h a of None \<Rightarrow> [] | Some blk \<Rightarrow> take (m_capacity v) blk))"

text \<open>
  A run of \<open>PushBack\<close> calls, one for each element of a list, in order; the list is the
  caller's and no array of the heap.
\<close>

fun PushBack_all :: "'a elem_type \<Rightarrow> 'a list \<Rightarrow> 'a heap \<times> vec \<Rightarrow> error + 'a heap \<times> vec" where
  "PushBack_all T [] hv = Inr hv"
| "PushBack_all T (x # xs) hv = bnd (PushBack T (Value x) hv) (PushBack_all T xs)"

section \<open>Programs over the public interface\<close>

text \<open>
  The mutating member functions as data, so that statements can range over all of them:
  \<open>invoke\<close> runs one on a vector and drops the iterator that \<open>Insert\<close> and \<open>Erase\<close>
  return. The element handed to a call is an object of the caller's, given by its value.
\<close>

datatype 'a member =
    M_PushBack 'a
  | M_PushBack_move 'a
  | M_PopBack
  | M_Insert nat 'a
  | M_Insert_move nat 'a
  | M_Erase nat
  | M_Resize nat
  | M_Reserve nat
  | M_Clear
  | M_assign_at nat 'a

fun invoke :: "'a elem_type \<Rightarrow> 'a member \<Rightarrow> 'a heap \<times> vec \<Rightarrow> error + 'a heap \<times> vec" where
  "invoke T (M_PushBack x) hv = PushBack T (Value x) hv"
| "invoke T (M_PushBack_move x) hv = PushBack_move T (Value x) hv"
| "invoke T M_PopBack hv = PopBack hv"
| "invoke T (M_Insert pos x) hv = bnd (Insert T pos x hv) (\<lambda>r. Inr (snd r))"
| "invoke T (M_Insert_move pos x) hv = bnd (Insert_move T pos x hv) (\<lambda>r. Inr (snd r))"
| "invoke T (M_Erase pos) hv = bnd (Erase T pos hv) (\<lambda>r. Inr (snd r))"
| "invoke T (M_Resize n) hv = Resize T n hv"
| "invoke T (M_Reserve n) hv = Reserve T n hv"
| "invoke T M_Clear hv = Clear hv"
| "invoke T (M_assign_at i x) hv = assign_at i x hv"

text \<open>The constructors that take no other vector.\<close>

datatype 'a ctor =
    C_default
  | C_size nat
  | C_fill nat 'a
  | C_init "'a list"
  | C_reserve nat

fun build :: "'a elem_type \<Rightarrow> 'a ctor \<Rightarrow> 'a heap \<Rightarrow> error + 'a heap \<times> vec" where
  "build T C_default h = Inr (h, SimpleVector_default)"
| "build T (C_size n) h = SimpleVector_size T n h"
| "build T (C_fill n x) h = SimpleVector_fill T n x h"
| "build T (C_init xs) h = SimpleVector_init T xs h"
| "build T (C_reserve n) h = SimpleVector_reserve T n h"

text \<open>
  A statement of a client program names the objects it works on by their addresses. A
  program is a list of statements; it stops at the first exception, failed assertion or
  undefined behaviour. It starts with an empty heap.
\<close>

datatype 'a stmt =
    Construct nat "'a ctor"
  | CopyConstruct nat nat
  | MoveConstruct nat nat
  | Call nat "'a member"
  | Swap nat nat
  | CopyAssign nat nat
  | MoveAssign nat nat

fun exec :: "'a elem_type \<Rightarrow> 'a stmt \<Rightarrow> 'a state \<Rightarrow> error + 'a state" where
  "exec T (Construct this c) s = construct this (build T c) s"
| "exec T (CopyConstruct this other) s = construct this (SimpleVector_copy T (objs s other)) s"
| "exec T (MoveConstruct this other) s = Inr (SimpleVector_move T this other s)"
| "exec T (Call this m) s = call this (invoke T m) s"
| "exec T (Swap this other) s = Inr (swap this other s)"
| "exec T (CopyAssign this rhs) s = copy_assign T this rhs s"
| "exec T (MoveAssign this rhs) s = move_assign this rhs s"

fun run :: "'a elem_type \<Rightarrow> 'a stmt list \<Rightarrow> 'a state \<Rightarrow> error + 'a state" where
  "run T [] s = Inr s"
| "run T (c # cs) s = bnd (exec T c s) (run T cs)"

definition start :: "'a state" where
  "start = \<lparr>heap = [], objs = (\<lambda>i. SimpleVector_default)\<rparr>"

text \<open>
  \<open>frame n p h h'\<close>: the heap \<open>h'\<close> still has the first \<open>n\<close> addresses of \<open>h\<close>, and every
  array at one of them other than \<open>p\<close> is as in \<open>h\<close>. \<open>target n p q\<close>: the pointer \<open>q\<close> is
  \<open>p\<close>, null, or an address from \<open>n\<close> on.
\<close>

definition frame :: "nat \<Rightarrow> addr option \<Rightarrow> 'a heap \<Rightarrow> 'a heap \<Rightarrow> bool" where
  "frame n p h h' \<longleftrightarrow> n \<le> length h' \<and> (\<forall>c<n. Some c \<noteq> p \<longrightarrow> block h' c = block h c)"

definition target :: "nat \<Rightarrow> addr option \<Rightarrow> addr option \<Rightarrow> bool" where
  "target n p q \<longleftrightarrow> (\<forall>c<n. q = Some c \<longrightarrow> q = p)"

text \<open>
  The shape of a heap: the length of each array, \<open>None\<close> for a deleted one. Whether a
  vector is well formed depends on the heap through its shape only.
\<close>

definition shape :: "'a heap \<Rightarrow> nat option list" where
  "shape h = map (map_option length) h"

text \<open>
  \<open>keeps h v h' v'\<close>: a call that takes the vector \<open>v\<close> in the heap \<open>h\<close> to \<open>v'\<close> in \<open>h'\<close>
  leaves \<open>v'\<close> well formed, and every well-formed vector \<open>w\<close> that does not share the
  array of \<open>v\<close> well formed and not sharing the array of \<open>v'\<close>.
\<close>

definition keeps :: "'a heap \<Rightarrow> vec \<Rightarrow> 'a heap \<Rightarrow> vec \<Rightarrow> bool" where
  "keeps h v h' v' \<longleftrightarrow>
     valid h' v' \<and>
     (\<forall>w. valid h w \<and> (m_items w = None \<or> m_items w \<noteq> m_items v) \<longrightarrow>
          valid h' w \<and> (m_items w = None \<or> m_items w \<noteq> m_items v'))"

text \<open>
  A state is well formed when every object is, and no two objects hold the same array.
\<close>

definition wf_state :: "'a state \<Rightarrow> bool" where
  "wf_state s \<longleftrightarrow>
     (\<forall>i. valid (heap s) (objs s i)) \<and>
     (\<forall>i j. i \<noteq> j \<longrightarrow>
        m_items (objs s i) = None \<or> m_items (objs s i) \<noteq> m_items (objs s j))"

text \<open>
  A state to run single calls on: the vector at address 0 holds \<open>{1, 2, 3}\<close> in an array
  of four elements, the vector at address 1 holds \<open>{7}\<close>.
\<close>

definition two_vectors :: "int state" where
  "two_vectors =
     \<lparr>heap = [Some [1, 2, 3, - 1], Some [7]],
      objs = (\<lambda>i. SimpleVector_default)
        (0 := \<lparr>m_items = Some 0, m_capacity = 4, m_size = 3\<rparr>,
         1 := \<lparr>m_items = Some 1, m_capacity = 1, m_size = 1\<rparr>)\<rparr>"

text \<open>A client program that goes through every constructor kind and member function.\<close>

definition example_program :: "int stmt list" where
  "example_program =
     [Construct 0 (C_init [1, 2, 3]),
      Call 0 (M_PushBack 4),
      CopyConstruct 1 0,
      Call 1 M_PopBack,
      Call 1 (M_Insert_move 1 9),
      Call 0 (M_Erase 0),
      Swap 0 1,
      MoveConstruct 2 0,
      CopyAssign 0 2,
      Call 0 (M_assign_at 0 5),
      MoveAssign 1 2,
      Call 1 (M_Reserve 20),
      Call 1 (M_Resize 25),
      Call 2 (M_PushBack_move 8),
      Call 0 M_Clear]"

section \<open>Facts about the heap and the loops\<close>

lemma bnd_Inr [simp]: "bnd (Inr x) f = f x"
  by (simp add: bnd_def)

lemma bnd_Inl [simp]: "bnd (Inl e) f = Inl e"
  by (simp add: bnd_def)

lemma bnd_eq_Inr: "bnd m f = Inr y \<longleftrightarrow> (\<exists>x. m = Inr x \<and> f x = Inr y)"
  by (cases m) simp_all

lemma block_update: "block (h[a := x]) b = (if b = a \<and> a < length h then x else block h b)"
  by (simp add: block_def)

lemma block_append: "block (h @ [x]) a = (if a = length h then x else block h a)"
  by (auto simp: block_def nth_append)

lemma block_lt: "block h a = Some blk \<Longrightarrow> a < length h"
  by (simp add: block_def split: if_splits)

lemma load_at: "block h a = Some blk \<Longrightarrow> i < length blk \<Longrightarrow> load h (Some a) i = Inr (blk ! i)"
  by (simp add: load_def)

lemma store_at:
  "block h a = Some blk \<Longrightarrow> i < length blk \<Longrightarrow>
   store h (Some a) i v = Inr (h[a := Some (blk[i := v])])"
  by (simp add: store_def)

lemma fill_n_at:
  "block h a = Some blk \<Longrightarrow> first + n \<le> length blk \<Longrightarrow>
   fill_n n h (Some a) first v
     = Inr (h[a := Some (take first blk @ replicate n v @ drop (first + n) blk)])"
proof (induction n arbitrary: h blk first)
  case 0
  then have "h[a := Some blk] = h"
    by (metis block_def list_update_id option.distinct(1))
  then show ?case by simp
next
  case (Suc n)
  have lt: "first < length blk" using Suc.prems by simp
  have a: "a < length h" using Suc.prems(1) by (rule block_lt)
  have st: "store h (Some a) first v = Inr (h[a := Some (blk[first := v])])"
    using Suc.prems(1) lt by (rule store_at)
  have blk': "block (h[a := Some (blk[first := v])]) a = Some (blk[first := v])"
    using a by (simp add: block_update)
  have "fill_n n (h[a := Some (blk[first := v])]) (Some a) (Suc first) v
     = Inr (h[a := Some (blk[first := v]),
              a := Some (take (Suc first) (blk[first := v]) @ replicate n v
                          @ drop (Suc first + n) (blk[first := v]))])"
    using Suc.IH [OF blk'] Suc.prems(2) by simp
  moreover have "take (Suc first) (blk[first := v]) = take first blk @ [v]"
    using lt by (simp add: take_Suc_conv_app_nth)
  moreover have "drop (Suc first + n) (blk[first := v]) = drop (first + Suc n) blk"
    by simp
  ultimately show ?case
    using st by (simp add: replicate_app_Cons_same)
qed

lemma copy_n_at:
  "block h a = Some src \<Longrightarrow> block h b = Some dst \<Longrightarrow> a \<noteq> b \<Longrightarrow>
   first + n \<le> length src \<Longrightarrow> d + n \<le> length dst \<Longrightarrow>
   copy_n n h (Some a) first (Some b) d
     = Inr (h[b := Some (take d dst @ take n (drop first src) @ drop (d + n) dst)])"
proof (induction n arbitrary: h dst first d)
  case 0
  then have "h[b := Some dst] = h"
    by (metis block_def list_update_id option.distinct(1))
  then show ?case by simp
next
  case (Suc n)
  have lt: "first < length src" "d < length dst" using Suc.prems by simp_all
  have b: "b < length h" using Suc.prems(2) by (rule block_lt)
  let ?h = "h[b := Some (dst[d := src ! first])]"
  have ld: "load h (Some a) first = Inr (src ! first)"
    using Suc.prems(1) lt(1) by (rule load_at)
  have st: "store h (Some b) d (src ! first) = Inr ?h"
    using Suc.prems(2) lt(2) by (rule store_at)
  have src': "block ?h a = Some src"
    using Suc.prems(1,3) by (simp add: block_update)
  have dst': "block ?h b = Some (dst[d := src ! first])"
    using b by (simp add: block_update)
  have "copy_n n ?h (Some a) (Suc first) (Some b) (Suc d)
     = Inr (?h[b := Some (take (Suc d) (dst[d := src ! first])
                 @ take n (drop (Suc first) src) @ drop (Suc d + n) (dst[d := src ! first]))])"
    using Suc.IH [OF src' dst' Suc.prems(3)] Suc.prems(4,5) by simp
  moreover have "take (Suc d) (dst[d := src ! first]) = take d dst @ [src ! first]"
    using lt by (simp add: take_Suc_conv_app_nth)
  moreover have "take (Suc n) (drop first src) = src ! first # take n (drop (Suc first) src)"
    using lt by (simp add: Cons_nth_drop_Suc [symmetric])
  ultimately show ?case
    using ld st by simp
qed

lemma heap_update4:
  "a \<noteq> b \<Longrightarrow> h[b := X1, a := Y1, b := X2, a := Y2] = h[b := X2, a := Y2]"
  by (metis list_update_swap list_update_overwrite)

lemma move_n_at:
  "block h a = Some src \<Longrightarrow> block h b = Some dst \<Longrightarrow> a \<noteq> b \<Longrightarrow>
   first + n \<le> length src \<Longrightarrow> d + n \<le> length dst \<Longrightarrow>
   move_n T n h (Some a) first (Some b) d
     = Inr (h[b := Some (take d dst @ take n (drop first src) @ drop (d + n) dst),
              a := Some (take first src @ map (moved T) (take n (drop first src))
                          @ drop (first + n) src)])"
proof (induction n arbitrary: h src dst first d)
  case 0
  then have "h[b := Some dst] = h" "h[a := Some src] = h"
    by (metis block_def list_update_id option.distinct(1))+
  then show ?case by simp
next
  case (Suc n)
  have lt: "first < length src" "d < length dst" using Suc.prems by simp_all
  have b: "b < length h" using Suc.prems(2) by (rule block_lt)
  have a: "a < length h" using Suc.prems(1) by (rule block_lt)
  let ?x = "src ! first"
  let ?src = "src[first := moved T ?x]"
  let ?dst = "dst[d := ?x]"
  let ?h1 = "h[b := Some ?dst]"
  let ?h2 = "?h1[a := Some ?src]"
  have ld: "load h (Some a) first = Inr ?x"
    using Suc.prems(1) lt(1) by (rule load_at)
  have st: "store h (Some b) d ?x = Inr ?h1"
    using Suc.prems(2) lt(2) by (rule store_at)
  have src1: "block ?h1 a = Some src"
    using Suc.prems(1,3) by (simp add: block_update)
  have st2: "store ?h1 (Some a) first (moved T ?x) = Inr ?h2"
    using src1 lt(1) by (rule store_at)
  have src': "block ?h2 a = Some ?src"
    using a by (simp add: block_update)
  have dst': "block ?h2 b = Some ?dst"
    using b Suc.prems(3) by (simp add: block_update)
  have e1: "take (Suc d) ?dst = take d dst @ [?x]"
    using lt by (simp add: take_Suc_conv_app_nth)
  have e2: "take (Suc first) ?src = take first src @ [moved T ?x]"
    using lt by (simp add: take_Suc_conv_app_nth)
  have e3: "take (Suc n) (drop first src) = ?x # take n (drop (Suc first) src)"
    using lt by (simp add: Cons_nth_drop_Suc [symmetric])
  have "move_n T (Suc n) h (Some a) first (Some b) d
      = move_n T n ?h2 (Some a) (Suc first) (Some b) (Suc d)"
    using ld st st2 by simp
  also have "\<dots> = Inr (?h2[b := Some (take (Suc d) ?dst
                 @ take n (drop (Suc first) ?src) @ drop (Suc d + n) ?dst),
               a := Some (take (Suc first) ?src
                 @ map (moved T) (take n (drop (Suc first) ?src))
                 @ drop (Suc first + n) ?src)])"
    using Suc.IH [OF src' dst' Suc.prems(3)] Suc.prems(4,5) by simp
  also have "\<dots> = Inr (h[b := Some (take (Suc d) ?dst
                 @ take n (drop (Suc first) ?src) @ drop (Suc d + n) ?dst),
               a := Some (take (Suc first) ?src
                 @ map (moved T) (take n (drop (Suc first) ?src))
                 @ drop (Suc first + n) ?src)])"
    by (simp only: heap_update4 [OF Suc.prems(3)])
  finally show ?case
    by (simp add: e1 e2 e3)
qed


lemma elems_slots: "valid h v \<Longrightarrow> elems h v = Some (take (m_size v) (slots h v))"
  by (auto simp: valid_def elems_def slots_def split: option.splits)

lemma length_slots: "valid h v \<Longrightarrow> length (slots h v) = m_capacity v"
  by (auto simp: valid_def slots_def split: option.splits)

lemma Resize_grow:
  assumes ok: "valid h v" and gt: "new_size > m_capacity v"
  defines "nc \<equiv> max new_size (m_capacity v * 2)"
  shows "\<exists>h'. Resize T new_size (h, v)
             = Inr (h', \<lparr>m_items = Some (length h), m_capacity = nc, m_size = new_size\<rparr>)
           \<and> length h' = Suc (length h)
           \<and> block h' (length h)
               = Some (slots h v @ replicate (nc - m_capacity v) (dflt T))
           \<and> (\<forall>c. Some c \<noteq> m_items v \<and> c < length h \<longrightarrow> block h' c = block h c)
           \<and> (\<forall>a. m_items v = Some a \<longrightarrow> block h' a = None)"
proof -
  have nc: "nc > 0" "m_capacity v \<le> nc" "new_size \<le> nc" using gt by (simp_all add: nc_def)
  have sz: "\<not> new_size \<le> m_size v" using ok gt by (simp add: valid_def)
  let ?h2 = "h @ [Some (map (raw T) [0..<nc])]"
  let ?h3 = "h @ [Some (replicate nc (dflt T))]"
  have new: "ArrayPtr_new T nc h = (Some (length h), ?h2)"
    using nc by (simp add: ArrayPtr_new_def)
  have "fill_n nc ?h2 (Some (length h)) 0 (dflt T)
      = Inr (?h2[length h := Some (take 0 (map (raw T) [0..<nc]) @ replicate nc (dflt T)
                                    @ drop (0 + nc) (map (raw T) [0..<nc]))])"
    by (rule fill_n_at) (simp_all add: block_append)
  then have fill: "Fill T (Some (length h)) 0 nc ?h2 = Inr ?h3"
    using nc by (simp add: Fill_def)
  have unfold: "Resize T new_size (h, v)
      = bnd (std_move T ?h3 (m_items v) 0 (m_capacity v) (Some (length h)) 0) (\<lambda>h4.
        bnd (ArrayPtr_delete (m_items v) h4) (\<lambda>h5.
        Inr (h5, \<lparr>m_items = Some (length h), m_capacity = nc, m_size = new_size\<rparr>)))"
    using sz gt new fill by (simp add: Resize_def Let_def nc_def)
  show ?thesis
  proof (cases "m_items v")
    case None
    then have cap: "m_capacity v = 0" using ok by (simp add: valid_def)
    have "Resize T new_size (h, v)
        = Inr (?h3, \<lparr>m_items = Some (length h), m_capacity = nc, m_size = new_size\<rparr>)"
      using None cap
      by (simp add: unfold std_move_def ArrayPtr_delete_def)
    then show ?thesis
      using None cap by (simp add: block_append slots_def)
  next
    case (Some a)
    then obtain blk where blk: "block h a = Some blk" "m_capacity v \<le> length blk"
      using ok by (auto simp: valid_def split: option.splits)
    have a: "a < length h" using blk(1) by (rule block_lt)
    let ?new = "take (m_capacity v) blk @ replicate (nc - m_capacity v) (dflt T)"
    let ?old = "map (moved T) (take (m_capacity v) blk) @ drop (m_capacity v) blk"
    let ?h4 = "?h3[length h := Some ?new, a := Some ?old]"
    have "move_n T (m_capacity v) ?h3 (Some a) 0 (Some (length h)) 0
        = Inr (?h3[length h := Some (take 0 (replicate nc (dflt T))
                      @ take (m_capacity v) (drop 0 blk)
                      @ drop (0 + m_capacity v) (replicate nc (dflt T))),
                   a := Some (take 0 blk @ map (moved T) (take (m_capacity v) (drop 0 blk))
                      @ drop (0 + m_capacity v) blk)])"
      using a blk nc by (intro move_n_at) (simp_all add: block_append)
    then have mv: "std_move T ?h3 (Some a) 0 (m_capacity v) (Some (length h)) 0 = Inr ?h4"
      by (simp add: std_move_def)
    have del: "ArrayPtr_delete (Some a) ?h4 = Inr (?h4[a := None])"
      using a by (simp add: ArrayPtr_delete_def block_update)
    have "Resize T new_size (h, v)
        = Inr (?h4[a := None], \<lparr>m_items = Some (length h), m_capacity = nc, m_size = new_size\<rparr>)"
      using Some mv del by (simp add: unfold)
    moreover have "block (?h4[a := None]) (length h) = Some ?new"
      using a by (simp add: block_update block_append)
    moreover have "\<forall>c. Some c \<noteq> m_items v \<and> c < length h \<longrightarrow> block (?h4[a := None]) c = block h c"
      using Some by (auto simp: block_update block_append)
    moreover have "block (?h4[a := None]) a = None"
      using a by (simp add: block_update block_append)
    ultimately show ?thesis
      using Some blk by (simp add: slots_def)
  qed
qed


section \<open>Resize within the capacity\<close>

text \<open>
  C1. A vector of capacity 4 holding the one element 5 (built by the reserving
  constructor and \<open>PushBack\<close>) is resized to 2, so \<open>size < new_size \<le> capacity\<close>. The
  claim has the size become 2 and slot 1 alone overwritten. The code leaves the size at 1
  and stores the default value in the slots 1 and 2, which is the range
  \<open>[size, size + new_size)\<close> that \<open>Resize\<close> hands to \<open>Fill\<close>.
\<close>

theorem Resize_grow_in_place_keeps_size:
  "bnd (SimpleVector_reserve int_type 4 [])
     (\<lambda>hv. bnd (PushBack int_type (Value 5) hv) (Resize int_type 2))
   = Inr ([Some [5, 0, 0, - 1]], \<lparr>m_items = Some 0, m_capacity = 4, m_size = 1\<rparr>)"
  by code_simp

text \<open>
  C2. The vector \<open>{1, 2, 3, 4}\<close> is resized to a size that is not larger. The claim has the
  array untouched. \<open>Resize(2)\<close> sets the size and then stores the default value in the
  slots 2 and 3; \<open>Resize(3)\<close> goes on to write the slots 3, 4 and 5 of an array of 4
  elements; \<open>Resize(0)\<close> fails the assertion of \<open>Fill\<close> on its empty range.
\<close>

theorem Resize_shrink_overwrites:
  "bnd (SimpleVector_init int_type [1, 2, 3, 4] []) (Resize int_type 2)
     = Inr ([Some [1, 2, 0, 0]], \<lparr>m_items = Some 0, m_capacity = 4, m_size = 2\<rparr>)
   \<and> bnd (SimpleVector_init int_type [1, 2, 3, 4] []) (Resize int_type 3) = Inl Undefined
   \<and> bnd (SimpleVector_init int_type [1, 2, 3, 4] []) (Resize int_type 0) = Inl AssertFailed"
  by code_simp

section \<open>Checked access\<close>

text \<open>
  C4. On a well-formed vector \<open>At(index)\<close> throws \<open>std::out_of_range\<close> exactly when
  \<open>index \<ge> size\<close>; otherwise it returns the reference to the element at \<open>index\<close> of the
  vector's array, which lies inside the array; either way the heap and the fields of the
  vector are as before.
\<close>

theorem At_checked:
  assumes "valid h v"
  shows "(fst (At index (h, v)) = Inl OutOfRange \<longleftrightarrow> index \<ge> m_size v)
       \<and> snd (At index (h, v)) = (h, v)
       \<and> (index < m_size v \<longrightarrow>
            (\<exists>a blk. m_items v = Some a \<and> block h a = Some blk \<and> index < length blk
               \<and> fst (At index (h, v)) = Inr (a, index)
               \<and> load h (m_items v) index = Inr (blk ! index)))"
  using assms
  by (auto simp: At_def valid_def ArrayPtr_index_def load_def split: option.splits)

theorem At_checked_witness:
  "valid [Some [1, 2, 3, - 1 :: int]] \<lparr>m_items = Some 0, m_capacity = 4, m_size = 3\<rparr>
   \<and> At 2 ([Some [1, 2, 3, - 1 :: int]], \<lparr>m_items = Some 0, m_capacity = 4, m_size = 3\<rparr>)
       = (Inr (0, 2), [Some [1, 2, 3, - 1]], \<lparr>m_items = Some 0, m_capacity = 4, m_size = 3\<rparr>)
   \<and> At 3 ([Some [1, 2, 3, - 1 :: int]], \<lparr>m_items = Some 0, m_capacity = 4, m_size = 3\<rparr>)
       = (Inl OutOfRange, [Some [1, 2, 3, - 1]], \<lparr>m_items = Some 0, m_capacity = 4, m_size = 3\<rparr>)"
proof -
  let ?h = "[Some [1, 2, 3, - 1 :: int]]"
  let ?v = "\<lparr>m_items = Some 0, m_capacity = 4, m_size = 3\<rparr>"
  have ok: "valid ?h ?v"
    by (simp add: valid_def block_def)
  have "fst (At 2 (?h, ?v)) \<noteq> Inl OutOfRange" and "snd (At 2 (?h, ?v)) = (?h, ?v)"
    and "\<exists>a blk. m_items ?v = Some a \<and> block ?h a = Some blk \<and> 2 < length blk
           \<and> fst (At 2 (?h, ?v)) = Inr (a, 2)"
    using At_checked [OF ok, of 2] by auto
  moreover have "fst (At 3 (?h, ?v)) = Inl OutOfRange" and "snd (At 3 (?h, ?v)) = (?h, ?v)"
    using At_checked [OF ok, of 3] by auto
  ultimately show ?thesis
    using ok by (auto simp: prod_eq_iff)
qed

section \<open>Self-assignment\<close>

text \<open>
  C10. Assigning a vector to itself, by copy or by move, returns with the whole state as
  it was: the fields of the vector, its array and every other array of the heap. Nothing
  is deleted and nothing allocated.
\<close>

theorem self_assignment_identity:
  "copy_assign T a a s = Inr s \<and> move_assign a a s = Inr s"
  by (simp add: copy_assign_def move_assign_def)

section \<open>PushBack and Reserve\<close>

lemma PushBack_move_eq: "PushBack_move T (Value x) hv = PushBack T (Value x) hv"
  by (cases hv) (auto simp: PushBack_move_def PushBack_def bnd_def split: sum.splits)

lemma PushBack_in_place:
  assumes ok: "valid h v" and lt: "m_size v < m_capacity v" and xs: "elems h v = Some xs"
    and rd: "read_arg h item = Inr x"
  shows "\<exists>h'. PushBack T item (h, v) = Inr (h', v\<lparr>m_size := m_size v + 1\<rparr>)
           \<and> length h' = length h
           \<and> valid h' (v\<lparr>m_size := m_size v + 1\<rparr>)
           \<and> elems h' (v\<lparr>m_size := m_size v + 1\<rparr>) = Some (xs @ [x])"
proof -
  obtain a blk where a: "m_items v = Some a" "block h a = Some blk" "m_capacity v \<le> length blk"
    using ok lt by (auto simp: valid_def split: option.splits)
  let ?h = "h[a := Some (blk[m_size v := x])]"
  let ?v = "v\<lparr>m_size := m_size v + 1\<rparr>"
  have "store h (Some a) (m_size v) x = Inr ?h"
    using a lt by (intro store_at) simp_all
  then have push: "PushBack T item (h, v) = Inr (?h, ?v)"
    using a lt rd by (simp add: PushBack_def)
  have la: "a < length h" using a(2) by (rule block_lt)
  have "xs = take (m_size v) blk"
    using xs a lt by (simp add: elems_def split: if_splits)
  then have "elems ?h ?v = Some (xs @ [x])"
    using a la lt by (simp add: elems_def block_update take_Suc_conv_app_nth)
  moreover have "valid ?h ?v"
    using a la lt by (simp add: valid_def block_update)
  ultimately show ?thesis
    using push by simp
qed

lemma PushBack_full:
  assumes ok: "valid h v" and full: "m_size v = m_capacity v" and xs: "elems h v = Some xs"
    and rd: "read_arg h item = Inr x"
    and apart: "\<forall>a i. item = Ref a i \<longrightarrow> Some a \<noteq> m_items v"
  defines "v' \<equiv> \<lparr>m_items = Some (length h),
                  m_capacity = max (m_capacity v + 1) (m_capacity v * 2),
                  m_size = m_capacity v + 1\<rparr>"
  shows "\<exists>h'. PushBack T item (h, v) = Inr (h', v')
           \<and> valid h' v' \<and> elems h' v' = Some (xs @ [x])"
proof -
  define nc where "nc = max (m_capacity v + 1) (m_capacity v * 2)"
  have v': "v' = \<lparr>m_items = Some (length h), m_capacity = nc, m_size = m_capacity v + 1\<rparr>"
    by (simp add: v'_def nc_def)
  obtain h1 where r: "Resize T (m_capacity v + 1) (h, v) = Inr (h1, v')"
    and len: "length h1 = Suc (length h)"
    and new: "block h1 (length h) = Some (slots h v @ replicate (nc - m_capacity v) (dflt T))"
    and same: "\<forall>c. Some c \<noteq> m_items v \<and> c < length h \<longrightarrow> block h1 c = block h c"
    using Resize_grow [OF ok, of "m_capacity v + 1" T] by (auto simp: nc_def v')
  have rd1: "read_arg h1 item = Inr x"
  proof (cases item)
    case (Value y)
    then show ?thesis using rd by simp
  next
    case (Ref a i)
    then have ld: "load h (Some a) i = Inr x" using rd by simp
    then have "a < length h"
      by (auto simp: load_def split: option.splits dest: block_lt)
    moreover have "Some a \<noteq> m_items v" using apart Ref by simp
    ultimately have "block h1 a = block h a" using same by simp
    then show ?thesis using ld Ref by (simp add: load_def)
  qed
  let ?blk = "slots h v @ replicate (nc - m_capacity v) (dflt T)"
  let ?h = "h1[length h := Some (?blk[m_capacity v := x])]"
  have ls: "length (slots h v) = m_capacity v" using ok by (rule length_slots)
  have nc: "m_capacity v < nc" by (simp add: nc_def)
  have "store h1 (Some (length h)) (m_capacity v) x = Inr ?h"
    using new nc ls by (intro store_at) simp_all
  then have push: "PushBack T item (h, v) = Inr (?h, v')"
    using full r rd1 by (simp add: PushBack_def v')
  have "xs = slots h v"
    using xs ok ls full by (simp add: elems_slots)
  then have "elems ?h v' = Some (xs @ [x])"
    using len ls nc by (simp add: v' elems_def block_update take_Suc_conv_app_nth nth_append)
  moreover have "valid ?h v'"
    using len ls nc by (simp add: v' valid_def block_update)
  ultimately show ?thesis
    using push by blast
qed

text \<open>
  Where \<open>PushBack\<close> does what is expected of it. On a well-formed vector holding \<open>xs\<close>,
  with an argument that can be read, the copy form returns a well-formed vector holding
  \<open>xs\<close> followed by the value of the argument, with the capacity unchanged when there was
  room and \<open>max(capacity + 1, 2 * capacity)\<close> otherwise, provided that there is room or
  that the argument is no element of the vector's own array. The move form does the same
  on an object of the caller's.
\<close>

lemma PushBack_appends_unless_alias:
  assumes ok: "valid h v" and xs: "elems h v = Some xs" and rd: "read_arg h item = Inr x"
    and apart: "m_size v < m_capacity v \<or> (\<forall>a i. item = Ref a i \<longrightarrow> Some a \<noteq> m_items v)"
  shows "\<exists>h' v'. PushBack T item (h, v) = Inr (h', v')
           \<and> valid h' v'
           \<and> m_size v' = m_size v + 1
           \<and> elems h' v' = Some (xs @ [x])
           \<and> (if m_size v < m_capacity v then m_capacity v' = m_capacity v
               else m_capacity v' \<ge> 2 * m_capacity v \<and> m_capacity v' \<ge> 1)
           \<and> m_capacity v' \<ge> m_capacity v"
proof (cases "m_size v < m_capacity v")
  case True
  from PushBack_in_place [OF ok True xs rd, of T] show ?thesis
    using True by auto
next
  case False
  then have full: "m_size v = m_capacity v" using ok by (simp add: valid_def)
  have na: "\<forall>a i. item = Ref a i \<longrightarrow> Some a \<noteq> m_items v"
    using apart False by simp
  have "2 * m_capacity v \<le> max (m_capacity v + 1) (m_capacity v * 2)"
    "1 \<le> max (m_capacity v + 1) (m_capacity v * 2)"
    "m_capacity v \<le> max (m_capacity v + 1) (m_capacity v * 2)"
    by (auto simp: max_def)
  with PushBack_full [OF ok full xs rd na, of T] show ?thesis
    using full by auto
qed

lemma PushBack_move_appends_value:
  assumes ok: "valid h v" and xs: "elems h v = Some xs"
  shows "\<exists>h' v'. PushBack_move T (Value x) (h, v) = Inr (h', v')
           \<and> valid h' v'
           \<and> m_size v' = m_size v + 1
           \<and> elems h' v' = Some (xs @ [x])
           \<and> (if m_size v < m_capacity v then m_capacity v' = m_capacity v
               else m_capacity v' \<ge> 2 * m_capacity v \<and> m_capacity v' \<ge> 1)
           \<and> m_capacity v' \<ge> m_capacity v"
  using PushBack_appends_unless_alias [OF ok xs, of "Value x" x T]
  by (simp add: PushBack_move_eq)

text \<open>
  C3. The vector \<open>{1, 2}\<close> is full, and its first element is pushed: \<open>v.PushBack(v[0])\<close>.
  The claim has the call return with \<open>{1, 2, 1}\<close>. In the code \<open>Resize\<close> moves the elements
  to a new array and deletes the old one, and \<open>PushBack\<close> then reads \<open>item\<close>, which refers
  to an element of the deleted array: the behaviour is undefined, in the copy form and in
  the move form. The branch for a vector with room reads \<open>item\<close> while its array is
  alive: from \<open>{1, 2}\<close> in an array of three elements the same call gives \<open>{1, 2, 1}\<close>. So
  does the full vector when the argument is an object of the caller's.
\<close>

theorem PushBack_alias_reads_deleted_array:
  "bnd (SimpleVector_init int_type [1, 2] [])
     (\<lambda>hv. bnd (index_op 0 hv) (\<lambda>r. PushBack int_type (Ref (fst r) (snd r)) hv))
     = Inl Undefined
   \<and> bnd (SimpleVector_init int_type [1, 2] [])
       (\<lambda>hv. bnd (index_op 0 hv) (\<lambda>r. PushBack_move int_type (Ref (fst r) (snd r)) hv))
     = Inl Undefined
   \<and> bnd (SimpleVector_init int_type [1, 2] []) (Resize int_type 3)
     = Inr ([None, Some [1, 2, 0, 0]], \<lparr>m_items = Some 1, m_capacity = 4, m_size = 3\<rparr>)
   \<and> PushBack int_type (Ref 0 0)
       ([Some [1, 2, - 1]], \<lparr>m_items = Some 0, m_capacity = 3, m_size = 2\<rparr>)
     = Inr ([Some [1, 2, 1]], \<lparr>m_items = Some 0, m_capacity = 3, m_size = 3\<rparr>)
   \<and> bnd (SimpleVector_init int_type [1, 2] []) (PushBack int_type (Value 1))
     = Inr ([None, Some [1, 2, 1, 0]], \<lparr>m_items = Some 1, m_capacity = 4, m_size = 3\<rparr>)"
  by code_simp

lemma Reserve_grow:
  assumes ok: "valid h v" and gt: "new_capacity > m_capacity v"
  shows "\<exists>h'. Reserve T new_capacity (h, v)
             = Inr (h', v\<lparr>m_items := Some (length h), m_capacity := new_capacity\<rparr>)
           \<and> length h' = Suc (length h)
           \<and> valid h' (v\<lparr>m_items := Some (length h), m_capacity := new_capacity\<rparr>)
           \<and> elems h' (v\<lparr>m_items := Some (length h), m_capacity := new_capacity\<rparr>) = elems h v
           \<and> (\<forall>c. Some c \<noteq> m_items v \<and> c < length h \<longrightarrow> block h' c = block h c)"
proof -
  let ?raw = "map (raw T) [0..<new_capacity]"
  let ?h1 = "h @ [Some ?raw]"
  let ?v = "v\<lparr>m_items := Some (length h), m_capacity := new_capacity\<rparr>"
  have new: "ArrayPtr_new T new_capacity h = (Some (length h), ?h1)"
    using gt by (simp add: ArrayPtr_new_def)
  have sz: "m_size v \<le> new_capacity" using ok gt by (simp add: valid_def)
  show ?thesis
  proof (cases "m_items v")
    case None
    then have "m_size v = 0" using ok by (simp add: valid_def)
    then have "Reserve T new_capacity (h, v) = Inr (?h1, ?v)"
      using gt new None by (simp add: Reserve_def ArrayPtr_delete_def)
    then show ?thesis
      using \<open>m_size v = 0\<close> gt None
      by (simp add: valid_def elems_def block_append)
  next
    case (Some a)
    then obtain blk where blk: "block h a = Some blk" "m_capacity v \<le> length blk"
      using ok by (auto simp: valid_def split: option.splits)
    have a: "a < length h" using blk(1) by (rule block_lt)
    let ?new = "take (m_size v) blk @ drop (m_size v) ?raw"
    let ?h2 = "?h1[length h := Some ?new]"
    have "copy_n (m_size v) ?h1 (Some a) 0 (Some (length h)) 0
        = Inr (?h1[length h := Some (take 0 ?raw @ take (m_size v) (drop 0 blk)
                                      @ drop (0 + m_size v) ?raw)])"
      using a blk ok sz by (intro copy_n_at) (simp_all add: block_append valid_def)
    then have cp: "std_copy ?h1 (Some a) 0 (m_size v) (Some (length h)) 0 = Inr ?h2"
      by (simp add: std_copy_def)
    have "?h1[length h := Some (take 0 blk @ drop 0 ?raw)] = ?h1"
      by simp
    then have cp0: "m_size v = 0 \<Longrightarrow> ?h2 = ?h1"
      by simp
    have h2: "(if m_size v > 0 then std_copy ?h1 (m_items v) 0 (m_size v) (Some (length h)) 0
               else Inr ?h1) = Inr ?h2"
      using cp cp0 Some by simp
    have del: "ArrayPtr_delete (Some a) ?h2 = Inr (?h2[a := None])"
      using a blk by (simp add: ArrayPtr_delete_def block_update block_append)
    have "Reserve T new_capacity (h, v) = Inr (?h2[a := None], ?v)"
      using gt new h2 del Some by (simp add: Reserve_def)
    moreover have "block (?h2[a := None]) (length h) = Some ?new"
      using a by (simp add: block_update block_append)
    moreover have "length ?new = new_capacity"
      using sz blk ok by (simp add: valid_def)
    moreover have "elems h v = (if m_size v = 0 then Some [] else Some (take (m_size v) blk))"
      using Some blk ok by (simp add: elems_def valid_def)
    moreover have "\<forall>c. Some c \<noteq> m_items v \<and> c < length h \<longrightarrow> block (?h2[a := None]) c = block h c"
      using Some by (auto simp: block_update block_append)
    ultimately show ?thesis
      using sz blk ok a by (simp add: valid_def elems_def)
  qed
qed


lemma PushBack_all_in_place:
  "valid h v \<Longrightarrow> m_size v + length xs \<le> m_capacity v \<Longrightarrow> elems h v = Some ys \<Longrightarrow>
   \<exists>h'. PushBack_all T xs (h, v) = Inr (h', v\<lparr>m_size := m_size v + length xs\<rparr>)
     \<and> length h' = length h
     \<and> valid h' (v\<lparr>m_size := m_size v + length xs\<rparr>)
     \<and> elems h' (v\<lparr>m_size := m_size v + length xs\<rparr>) = Some (ys @ xs)"
proof (induction xs arbitrary: h v ys)
  case Nil
  then show ?case by simp
next
  case (Cons x xs)
  have lt: "m_size v < m_capacity v" using Cons.prems(2) by simp
  let ?v1 = "v\<lparr>m_size := m_size v + 1\<rparr>"
  have rd: "read_arg h (Value x) = Inr x" by simp
  obtain h1 where push: "PushBack T (Value x) (h, v) = Inr (h1, ?v1)"
    and h1: "length h1 = length h" and ok1: "valid h1 ?v1"
    and el1: "elems h1 ?v1 = Some (ys @ [x])"
    using PushBack_in_place [OF Cons.prems(1) lt Cons.prems(3) rd, of T] by blast
  have "m_size ?v1 + length xs \<le> m_capacity ?v1"
    using Cons.prems(2) by simp
  from Cons.IH [OF ok1 this el1]
  show ?case
    using push h1 by simp
qed

text \<open>
  C7. On a well-formed vector \<open>Reserve(new_capacity)\<close> returns the heap and the vector as
  they were when \<open>new_capacity \<le> capacity\<close>; otherwise it returns a well-formed vector of
  capacity exactly \<open>new_capacity\<close> with the size and the elements it had. After
  \<open>Reserve(10)\<close> on a default-constructed vector, pushing any list of at most 10 elements
  one by one ends with capacity 10, in the array that \<open>Reserve\<close> allocated, and with the
  pushed elements: as every prefix of the 10 calls is such a list, the capacity is 10
  after each of them.
\<close>

theorem Reserve_capacity:
  assumes ok: "valid h v"
  shows "(new_capacity \<le> m_capacity v \<longrightarrow> Reserve T new_capacity (h, v) = Inr (h, v))
       \<and> (new_capacity > m_capacity v \<longrightarrow>
            (\<exists>h' v'. Reserve T new_capacity (h, v) = Inr (h', v')
               \<and> valid h' v' \<and> m_capacity v' = new_capacity \<and> m_size v' = m_size v
               \<and> elems h' v' = elems h v))
       \<and> (\<forall>xs. length xs \<le> 10 \<longrightarrow>
            (\<exists>h' v'. bnd (Reserve T 10 (h, SimpleVector_default)) (PushBack_all T xs)
                        = Inr (h', v')
               \<and> m_capacity v' = 10 \<and> m_items v' = Some (length h)
               \<and> length h' = Suc (length h)
               \<and> m_size v' = length xs \<and> elems h' v' = Some xs))"
proof (intro conjI impI allI)
  assume "new_capacity \<le> m_capacity v"
  then show "Reserve T new_capacity (h, v) = Inr (h, v)"
    by (simp add: Reserve_def)
next
  assume "new_capacity > m_capacity v"
  from Reserve_grow [OF ok this, of T]
  show "\<exists>h' v'. Reserve T new_capacity (h, v) = Inr (h', v')
          \<and> valid h' v' \<and> m_capacity v' = new_capacity \<and> m_size v' = m_size v
          \<and> elems h' v' = elems h v"
    by auto
next
  fix xs :: "'a list"
  assume len: "length xs \<le> 10"
  let ?v = "SimpleVector_default\<lparr>m_items := Some (length h), m_capacity := 10\<rparr>"
  have ok0: "valid h SimpleVector_default"
    by (simp add: valid_def SimpleVector_default_def)
  obtain h1 where res: "Reserve T 10 (h, SimpleVector_default) = Inr (h1, ?v)"
    and h1: "length h1 = Suc (length h)" and ok1: "valid h1 ?v"
    and el1: "elems h1 ?v = elems h SimpleVector_default"
    using Reserve_grow [OF ok0, of 10 T] by (auto simp: SimpleVector_default_def)
  have el: "elems h1 ?v = Some []"
    by (simp add: elems_def SimpleVector_default_def)
  have "m_size ?v + length xs \<le> m_capacity ?v"
    using len by (simp add: SimpleVector_default_def)
  from PushBack_all_in_place [OF ok1 this el, of T]
  show "\<exists>h' v'. bnd (Reserve T 10 (h, SimpleVector_default)) (PushBack_all T xs) = Inr (h', v')
          \<and> m_capacity v' = 10 \<and> m_items v' = Some (length h)
          \<and> length h' = Suc (length h)
          \<and> m_size v' = length xs \<and> elems h' v' = Some xs"
    using res h1 by (auto simp: SimpleVector_default_def)
qed

theorem Reserve_capacity_witness:
  "valid [Some [1, 2 :: int]] \<lparr>m_items = Some 0, m_capacity = 2, m_size = 2\<rparr>
   \<and> Reserve int_type 2 ([Some [1, 2]], \<lparr>m_items = Some 0, m_capacity = 2, m_size = 2\<rparr>)
       = Inr ([Some [1, 2]], \<lparr>m_items = Some 0, m_capacity = 2, m_size = 2\<rparr>)
   \<and> Reserve int_type 5 ([Some [1, 2]], \<lparr>m_items = Some 0, m_capacity = 2, m_size = 2\<rparr>)
       = Inr ([None, Some [1, 2, - 1, - 1, - 1]], \<lparr>m_items = Some 1, m_capacity = 5, m_size = 2\<rparr>)
   \<and> (\<exists>h' v'. bnd (Reserve int_type 10 ([Some [1, 2]], SimpleVector_default))
                 (PushBack_all int_type [1, 2, 3, 4, 5, 6, 7, 8, 9, 10]) = Inr (h', v')
         \<and> m_capacity v' = 10 \<and> m_size v' = 10
         \<and> elems h' v' = Some [1, 2, 3, 4, 5, 6, 7, 8, 9, 10])"
proof -
  let ?h = "[Some [1, 2 :: int]]"
  let ?v = "\<lparr>m_items = Some 0, m_capacity = 2, m_size = 2\<rparr>"
  have ok: "valid ?h ?v" by (simp add: valid_def block_def)
  have same: "Reserve int_type 2 (?h, ?v) = Inr (?h, ?v)"
    using Reserve_capacity [OF ok, of 2 int_type] by simp
  have grow: "Reserve int_type 5 (?h, ?v)
       = Inr ([None, Some [1, 2, - 1, - 1, - 1]], \<lparr>m_items = Some 1, m_capacity = 5, m_size = 2\<rparr>)"
    by code_simp
  have "\<exists>h' v'. bnd (Reserve int_type 10 (?h, SimpleVector_default))
                 (PushBack_all int_type [1, 2, 3, 4, 5, 6, 7, 8, 9, 10]) = Inr (h', v')
         \<and> m_capacity v' = 10 \<and> m_size v' = 10
         \<and> elems h' v' = Some [1, 2, 3, 4, 5, 6, 7, 8, 9, 10]"
  proof -
    have "length [1, 2, 3, 4, 5, 6, 7, 8, 9, 10 :: int] \<le> 10" by simp
    with Reserve_capacity [OF ok, of 2 int_type] obtain h' v'
      where "bnd (Reserve int_type 10 (?h, SimpleVector_default))
                 (PushBack_all int_type [1, 2, 3, 4, 5, 6, 7, 8, 9, 10]) = Inr (h', v')"
        and "m_capacity v' = 10"
        and "m_size v' = length [1, 2, 3, 4, 5, 6, 7, 8, 9, 10 :: int]"
        and "elems h' v' = Some [1, 2, 3, 4, 5, 6, 7, 8, 9, 10]"
      by blast
    then show ?thesis by simp
  qed
  then show ?thesis
    using ok same grow by blast
qed

section \<open>Insert\<close>

text \<open>
  C6. The move form of \<open>Insert\<close> gives the sequence of the claim on the example of the
  specification, \<open>{1, 2, 3}\<close> with 0 inserted at \<open>begin()\<close>. On a full vector of owning
  pointers it does not: the vector \<open>{p1, p2}\<close> built by two \<open>PushBack\<close> calls has size and
  capacity 2, and inserting \<open>p9\<close> at \<open>begin()\<close> yields \<open>{p9, null, null}\<close>, where the claim
  has \<open>{p9, p1, p2}\<close>. The branch for a full vector moves all elements into the new array
  with \<open>std::move\<close> and then moves the elements from \<open>pos\<close> on a second time, out of the
  moved-from array, with \<open>std::move_backward\<close>.
\<close>

theorem Insert_move_full_loses_suffix:
  "bnd (SimpleVector_init int_type [1, 2, 3] []) (Insert_move int_type 0 0)
     = Inr ((Some 1, 0), [None, Some [0, 1, 2, 3, - 1, - 1]],
            \<lparr>m_items = Some 1, m_capacity = 6, m_size = 4\<rparr>)
   \<and> bnd (PushBack_move owner_type (Value (Some 1)) ([], SimpleVector_default))
         (\<lambda>hv. PushBack_move owner_type (Value (Some 2)) hv)
     = Inr ([None, Some [Some 1, Some 2]], \<lparr>m_items = Some 1, m_capacity = 2, m_size = 2\<rparr>)
   \<and> Insert_move owner_type 0 (Some 9)
         ([None, Some [Some 1, Some 2]], \<lparr>m_items = Some 1, m_capacity = 2, m_size = 2\<rparr>)
     = Inr ((Some 2, 0), [None, None, Some [Some 9, None, None, None]],
            \<lparr>m_items = Some 2, m_capacity = 4, m_size = 3\<rparr>)"
  by code_simp


section \<open>Move construction and move assignment\<close>

lemma valid_append: "valid h v \<Longrightarrow> valid (h @ [x]) v"
  by (auto simp: valid_def block_append split: option.splits dest: block_lt)

lemma elems_append: "valid h v \<Longrightarrow> elems (h @ [x]) v = elems h v"
  by (auto simp: valid_def elems_def block_append split: option.splits dest: block_lt)

lemma slots_append: "valid h v \<Longrightarrow> slots (h @ [x]) v = slots h v"
  by (auto simp: valid_def slots_def block_append split: option.splits dest: block_lt)

lemma vec_eta [simp]:
  "\<lparr>m_items = m_items v, m_capacity = m_capacity v, m_size = m_size v\<rparr> = (v :: vec)"
  by (cases v) simp

text \<open>
  C5. Let \<open>a\<close> be a well-formed vector and \<open>b\<close> another object. After move-constructing
  \<open>b\<close> from \<open>a\<close>, \<open>b\<close> has the array pointer, capacity and size that \<open>a\<close> had, and with
  them the same slots and elements, and \<open>a\<close> has size 0 and capacity 0. The same holds
  after the move assignment \<open>b = std::move(a)\<close> to a well-formed \<open>b\<close> that owns an array of
  its own or none; there \<open>a\<close> is left with the null pointer as well.
\<close>

theorem move_transfer:
  assumes ne: "a \<noteq> b" and ok: "valid (heap s) (objs s a)"
  shows "(\<exists>s'. SimpleVector_move T b a s = s'
            \<and> objs s' b = objs s a
            \<and> slots (heap s') (objs s' b) = slots (heap s) (objs s a)
            \<and> elems (heap s') (objs s' b) = elems (heap s) (objs s a)
            \<and> valid (heap s') (objs s' b)
            \<and> m_size (objs s' a) = 0 \<and> m_capacity (objs s' a) = 0)
       \<and> (valid (heap s) (objs s b)
            \<and> (m_items (objs s b) = None \<or> m_items (objs s b) \<noteq> m_items (objs s a))
          \<longrightarrow> (\<exists>s'. move_assign b a s = Inr s'
                 \<and> objs s' b = objs s a
                 \<and> slots (heap s') (objs s' b) = slots (heap s) (objs s a)
                 \<and> elems (heap s') (objs s' b) = elems (heap s) (objs s a)
                 \<and> valid (heap s') (objs s' b)
                 \<and> m_items (objs s' a) = None
                 \<and> m_size (objs s' a) = 0 \<and> m_capacity (objs s' a) = 0))"
proof (intro conjI impI)
  show "\<exists>s'. SimpleVector_move T b a s = s'
            \<and> objs s' b = objs s a
            \<and> slots (heap s') (objs s' b) = slots (heap s) (objs s a)
            \<and> elems (heap s') (objs s' b) = elems (heap s) (objs s a)
            \<and> valid (heap s') (objs s' b)
            \<and> m_size (objs s' a) = 0 \<and> m_capacity (objs s' a) = 0"
    using ne ok
    by (simp add: SimpleVector_move_def ArrayPtr_new_def swap_def Let_def
        valid_append elems_append slots_append)
next
  assume pre: "valid (heap s) (objs s b)
     \<and> (m_items (objs s b) = None \<or> m_items (objs s b) \<noteq> m_items (objs s a))"
  show "\<exists>s'. move_assign b a s = Inr s'
           \<and> objs s' b = objs s a
           \<and> slots (heap s') (objs s' b) = slots (heap s) (objs s a)
           \<and> elems (heap s') (objs s' b) = elems (heap s) (objs s a)
           \<and> valid (heap s') (objs s' b)
           \<and> m_items (objs s' a) = None
           \<and> m_size (objs s' a) = 0 \<and> m_capacity (objs s' a) = 0"
  proof (cases "m_items (objs s b)")
    case None
    then show ?thesis
      using ne ok by (simp add: move_assign_def Let_def ArrayPtr_delete_def)
  next
    case (Some p)
    then obtain blk where blk: "block (heap s) p = Some blk"
      using pre by (auto simp: valid_def split: option.splits)
    have other: "m_items (objs s a) \<noteq> Some p"
      using pre Some by auto
    let ?h = "(heap s)[p := None]"
    have del: "ArrayPtr_delete (m_items (objs s b)) (heap s) = Inr ?h"
      using Some blk by (simp add: ArrayPtr_delete_def)
    have "valid ?h (objs s a)" "elems ?h (objs s a) = elems (heap s) (objs s a)"
      "slots ?h (objs s a) = slots (heap s) (objs s a)"
      using ok other
      by (auto simp: valid_def elems_def slots_def block_update split: option.splits)
    then show ?thesis
      using ne del by (simp add: move_assign_def Let_def)
  qed
qed

theorem move_transfer_witness:
  "(0 :: nat) \<noteq> 1 \<and> valid (heap two_vectors) (objs two_vectors 0)
   \<and> valid (heap two_vectors) (objs two_vectors 1)
   \<and> (\<exists>s'. move_assign 1 0 two_vectors = Inr s'
          \<and> objs s' 1 = \<lparr>m_items = Some 0, m_capacity = 4, m_size = 3\<rparr>
          \<and> elems (heap s') (objs s' 1) = Some [1, 2, 3]
          \<and> m_size (objs s' 0) = 0 \<and> m_capacity (objs s' 0) = 0)"
proof -
  have ne: "(0 :: nat) \<noteq> 1" by simp
  have ok0: "valid (heap two_vectors) (objs two_vectors 0)"
    by (simp add: two_vectors_def valid_def block_def)
  have ok1: "valid (heap two_vectors) (objs two_vectors 1)"
    by (simp add: two_vectors_def valid_def block_def)
  have own: "m_items (objs two_vectors 1) = None
             \<or> m_items (objs two_vectors 1) \<noteq> m_items (objs two_vectors 0)"
    by (simp add: two_vectors_def)
  have a: "objs two_vectors 0 = \<lparr>m_items = Some 0, m_capacity = 4, m_size = 3\<rparr>"
    and el: "elems (heap two_vectors) (objs two_vectors 0) = Some [1, 2, 3]"
    by (simp_all add: two_vectors_def elems_def block_def)
  from move_transfer [OF ne ok0, of int_type] ok1 own
  obtain s' where "move_assign 1 0 two_vectors = Inr s'"
    and "objs s' 1 = objs two_vectors 0"
    and "elems (heap s') (objs s' 1) = elems (heap two_vectors) (objs two_vectors 0)"
    and "m_size (objs s' 0) = 0" and "m_capacity (objs s' 0) = 0"
    by blast
  then show ?thesis
    using ne ok0 ok1 a el by auto
qed

section \<open>Copy construction\<close>

lemma target_simps [simp]: "target n p p" "target n p None" "n \<le> k \<Longrightarrow> target n p (Some k)"
  by (auto simp: target_def)

lemma frame_refl: "n \<le> length h \<Longrightarrow> frame n p h h"
  by (simp add: frame_def)

lemma frame_store:
  "frame n p h0 h \<Longrightarrow> store h q i x = Inr h' \<Longrightarrow> target n p q \<Longrightarrow> frame n p h0 h'"
  by (auto simp: frame_def target_def store_def block_update split: option.splits if_splits)

lemma frame_delete:
  "frame n p h0 h \<Longrightarrow> ArrayPtr_delete q h = Inr h' \<Longrightarrow> target n p q \<Longrightarrow> frame n p h0 h'"
  by (auto simp: frame_def target_def ArrayPtr_delete_def block_update
      split: option.splits if_splits)

lemma frame_new:
  "frame n p h0 h \<Longrightarrow> ArrayPtr_new T k h = (q, h') \<Longrightarrow> frame n p h0 h' \<and> target n p q"
  by (auto simp: frame_def target_def ArrayPtr_new_def block_append split: if_splits)

lemma frame_fill_n:
  "frame n p h0 h \<Longrightarrow> fill_n k h q i x = Inr h' \<Longrightarrow> target n p q \<Longrightarrow> frame n p h0 h'"
  by (induction k arbitrary: h i) (auto simp: bnd_eq_Inr dest: frame_store)

lemma frame_copy_init:
  "frame n p h0 h \<Longrightarrow> copy_init xs h q i = Inr h' \<Longrightarrow> target n p q \<Longrightarrow> frame n p h0 h'"
  by (induction xs arbitrary: h i) (auto simp: bnd_eq_Inr dest: frame_store)

lemma frame_copy_n:
  "frame n p h0 h \<Longrightarrow> copy_n k h src i q j = Inr h' \<Longrightarrow> target n p q \<Longrightarrow> frame n p h0 h'"
  by (induction k arbitrary: h i j) (auto simp: bnd_eq_Inr dest: frame_store)

lemma frame_copy_backward_n:
  "frame n p h0 h \<Longrightarrow> copy_backward_n k h src i q j = Inr h' \<Longrightarrow> target n p q \<Longrightarrow>
   frame n p h0 h'"
  by (induction k arbitrary: h i j) (auto simp: bnd_eq_Inr split: if_splits dest: frame_store)

lemma frame_move_n:
  "frame n p h0 h \<Longrightarrow> move_n T k h src i q j = Inr h' \<Longrightarrow> target n p q \<Longrightarrow>
   target n p src \<Longrightarrow> frame n p h0 h'"
  by (induction k arbitrary: h i j) (auto simp: bnd_eq_Inr, meson frame_store)

lemma frame_move_backward_n:
  "frame n p h0 h \<Longrightarrow> move_backward_n T k h src i q j = Inr h' \<Longrightarrow> target n p q \<Longrightarrow>
   target n p src \<Longrightarrow> frame n p h0 h'"
  by (induction k arbitrary: h i j) (auto simp: bnd_eq_Inr split: if_splits, meson frame_store)

lemma frame_Fill:
  "frame n p h0 h \<Longrightarrow> Fill T q i j h = Inr h' \<Longrightarrow> target n p q \<Longrightarrow> frame n p h0 h'"
  by (auto simp: Fill_def split: if_splits dest: frame_fill_n)

lemma frame_std_copy:
  "frame n p h0 h \<Longrightarrow> std_copy h src i j q d = Inr h' \<Longrightarrow> target n p q \<Longrightarrow> frame n p h0 h'"
  by (auto simp: std_copy_def split: if_splits dest: frame_copy_n)

lemma frame_std_copy_backward:
  "frame n p h0 h \<Longrightarrow> std_copy_backward h src i j q d = Inr h' \<Longrightarrow> target n p q \<Longrightarrow>
   frame n p h0 h'"
  by (auto simp: std_copy_backward_def split: if_splits dest: frame_copy_backward_n)

lemma frame_std_move:
  "frame n p h0 h \<Longrightarrow> std_move T h src i j q d = Inr h' \<Longrightarrow> target n p q \<Longrightarrow>
   target n p src \<Longrightarrow> frame n p h0 h'"
  by (auto simp: std_move_def split: if_splits dest: frame_move_n)

lemma frame_std_move_backward:
  "frame n p h0 h \<Longrightarrow> std_move_backward T h src i j q d = Inr h' \<Longrightarrow> target n p q \<Longrightarrow>
   target n p src \<Longrightarrow> frame n p h0 h'"
  by (auto simp: std_move_backward_def split: if_splits dest: frame_move_backward_n)

lemmas frame_steps =
  frame_store frame_delete frame_Fill frame_std_copy frame_std_copy_backward
  frame_std_move frame_std_move_backward

lemma frame_new1:
  "frame n p h0 h \<Longrightarrow> ArrayPtr_new T k h = (q, h') \<Longrightarrow> frame n p h0 h'"
  using frame_new by blast

lemma frame_new2:
  "frame n p h0 h \<Longrightarrow> ArrayPtr_new T k h = (q, h') \<Longrightarrow> target n p q"
  using frame_new by blast

lemmas frame_chain = frame_steps frame_new1 frame_new2 target_simps(1,2)

lemma frame_Resize:
  assumes "Resize T k (h, v) = Inr (h', v')" and "frame n p h0 h" and "target n p (m_items v)"
  shows "frame n p h0 h' \<and> target n p (m_items v')"
  using assms
  by (auto simp: Resize_def Let_def bnd_eq_Inr split: if_splits prod.splits;
      meson frame_chain)

lemma frame_PushBack:
  assumes "PushBack T (Value x) (h, v) = Inr (h', v')" and "frame n p h0 h" and "target n p (m_items v)"
  shows "frame n p h0 h' \<and> target n p (m_items v')"
  using assms
  by (auto simp: PushBack_def bnd_eq_Inr split: if_splits prod.splits;
      meson frame_chain frame_Resize)

lemma frame_Insert:
  assumes "Insert T pos x (h, v) = Inr (r, h', v')" and "frame n p h0 h"
    and "target n p (m_items v)"
  shows "frame n p h0 h' \<and> target n p (m_items v')"
  using assms
  by (auto simp: Insert_def Let_def bnd_eq_Inr split: if_splits prod.splits;
      meson frame_chain)

lemma frame_Insert_move:
  assumes "Insert_move T pos x (h, v) = Inr (r, h', v')" and "frame n p h0 h"
    and "target n p (m_items v)"
  shows "frame n p h0 h' \<and> target n p (m_items v')"
  using assms
  by (auto simp: Insert_move_def Let_def bnd_eq_Inr split: if_splits prod.splits;
      meson frame_chain)

lemma frame_Erase:
  assumes "Erase T pos (h, v) = Inr (r, h', v')" and "frame n p h0 h"
    and "target n p (m_items v)"
  shows "frame n p h0 h' \<and> target n p (m_items v')"
  using assms
  by (auto simp: Erase_def Let_def bnd_eq_Inr split: if_splits prod.splits;
      meson frame_chain)

lemma frame_Reserve:
  assumes "Reserve T k (h, v) = Inr (h', v')" and "frame n p h0 h"
    and "target n p (m_items v)"
  shows "frame n p h0 h' \<and> target n p (m_items v')"
  using assms
  by (auto simp: Reserve_def Let_def bnd_eq_Inr split: if_splits prod.splits;
      meson frame_chain)

lemma frame_invoke:
  assumes r: "invoke T m (h, v) = Inr (h', v')" and f: "frame n p h0 h"
    and t: "target n p (m_items v)"
  shows "frame n p h0 h' \<and> target n p (m_items v')"
proof (cases m)
  case (M_PushBack x)
  with r f t show ?thesis using frame_PushBack [of T x h v h' v' n p h0] by simp
next
  case (M_PushBack_move x)
  with r f t show ?thesis
    using frame_PushBack [of T x h v h' v' n p h0] by (simp add: PushBack_move_eq)
next
  case M_PopBack
  with r f t show ?thesis by (auto simp: PopBack_def split: if_splits)
next
  case (M_Insert pos x)
  with r f t show ?thesis by (auto simp: bnd_eq_Inr dest: frame_Insert)
next
  case (M_Insert_move pos x)
  with r f t show ?thesis by (auto simp: bnd_eq_Inr dest: frame_Insert_move)
next
  case (M_Erase pos)
  with r f t show ?thesis by (auto simp: bnd_eq_Inr dest: frame_Erase)
next
  case (M_Resize k)
  with r f t show ?thesis using frame_Resize [of T k h v h' v' n p h0] by simp
next
  case (M_Reserve k)
  with r f t show ?thesis using frame_Reserve [of T k h v h' v' n p h0] by simp
next
  case M_Clear
  with r f t show ?thesis by (auto simp: Clear_def)
next
  case (M_assign_at i x)
  with r f t show ?thesis by (auto simp: assign_at_def bnd_eq_Inr dest: frame_store)
qed


lemma equal_n_at:
  "block h a = Some xs \<Longrightarrow> block h b = Some ys \<Longrightarrow> i + n \<le> length xs \<Longrightarrow>
   j + n \<le> length ys \<Longrightarrow>
   equal_n n h (Some a) i (Some b) j = Inr (take n (drop i xs) = take n (drop j ys))"
proof (induction n arbitrary: i j)
  case 0
  then show ?case by simp
next
  case (Suc n)
  have lt: "i < length xs" "j < length ys" using Suc.prems by simp_all
  have ld: "load h (Some a) i = Inr (xs ! i)" "load h (Some b) j = Inr (ys ! j)"
    using Suc.prems lt by (simp_all add: load_at)
  have e: "take (Suc n) (drop i xs) = xs ! i # take n (drop (Suc i) xs)"
    "take (Suc n) (drop j ys) = ys ! j # take n (drop (Suc j) ys)"
    using lt by (simp_all add: Cons_nth_drop_Suc [symmetric])
  have "equal_n n h (Some a) (Suc i) (Some b) (Suc j)
      = Inr (take n (drop (Suc i) xs) = take n (drop (Suc j) ys))"
    using Suc.prems by (intro Suc.IH) simp_all
  then show ?case
    using ld e by simp
qed

lemma elems_frame:
  assumes "frame n p h h'" and "m_items v = None \<or> m_items v \<noteq> p"
    and "\<forall>c. m_items v = Some c \<longrightarrow> c < n"
  shows "elems h' v = elems h v"
  using assms by (auto simp: frame_def elems_def split: option.splits)

lemma SimpleVector_copy_result:
  assumes ok: "valid h v"
  shows "\<exists>h' v'. SimpleVector_copy T v h = Inr (h', v')
           \<and> m_size v' = m_size v \<and> m_capacity v' = m_size v
           \<and> valid h' v' \<and> elems h' v' = elems h v
           \<and> frame (length h) None h h'
           \<and> (if m_size v = 0 then m_items v' = None \<and> h' = h
               else m_items v' = Some (length h) \<and> length h' = Suc (length h))"
proof (cases "m_size v = 0")
  case True
  then have "SimpleVector_copy T v h = Inr (h, \<lparr>m_items = None, m_capacity = 0, m_size = 0\<rparr>)"
    by (simp add: SimpleVector_copy_def ArrayPtr_new_def std_copy_def)
  then show ?thesis
    using True by (simp add: valid_def elems_def frame_refl)
next
  case False
  then obtain a blk where a: "m_items v = Some a" "block h a = Some blk"
      "m_capacity v \<le> length blk" "m_size v \<le> m_capacity v"
    using ok by (auto simp: valid_def split: option.splits)
  have la: "a < length h" using a(2) by (rule block_lt)
  let ?raw = "map (raw T) [0..<m_size v]"
  let ?h1 = "h @ [Some ?raw]"
  let ?h2 = "?h1[length h := Some (take (m_size v) blk)]"
  let ?v = "\<lparr>m_items = Some (length h), m_capacity = m_size v, m_size = m_size v\<rparr>"
  have new: "ArrayPtr_new T (m_size v) h = (Some (length h), ?h1)"
    using False by (simp add: ArrayPtr_new_def)
  have "copy_n (m_size v) ?h1 (Some a) 0 (Some (length h)) 0
      = Inr (?h1[length h := Some (take 0 ?raw @ take (m_size v) (drop 0 blk)
                                    @ drop (0 + m_size v) ?raw)])"
    using a la by (intro copy_n_at) (simp_all add: block_append)
  then have "std_copy ?h1 (Some a) 0 (m_size v) (Some (length h)) 0 = Inr ?h2"
    by (simp add: std_copy_def)
  then have "SimpleVector_copy T v h = Inr (?h2, ?v)"
    using new a by (simp add: SimpleVector_copy_def)
  moreover have "valid ?h2 ?v" "elems ?h2 ?v = elems h v"
    using a False by (simp_all add: valid_def elems_def block_update block_append)
  moreover have "frame (length h) None h ?h2"
    by (simp add: frame_def block_update block_append)
  ultimately show ?thesis
    using False by simp
qed

lemma operator_eq_same_elems:
  assumes "valid (heap s) (objs s a)" and "valid (heap s) (objs s b)"
    and "elems (heap s) (objs s a) = elems (heap s) (objs s b)"
    and "m_size (objs s a) = m_size (objs s b)"
  shows "operator_eq a b s = Inr True"
proof (cases "m_size (objs s a) = 0")
  case True
  then show ?thesis
    using assms(4) by (simp add: operator_eq_def std_equal_def)
next
  case False
  obtain pa xs where a: "m_items (objs s a) = Some pa" "block (heap s) pa = Some xs"
      "m_size (objs s a) \<le> length xs"
    using assms(1) False by (auto simp: valid_def split: option.splits)
  obtain pb ys where b: "m_items (objs s b) = Some pb" "block (heap s) pb = Some ys"
      "m_size (objs s b) \<le> length ys"
    using assms(2,4) False by (auto simp: valid_def split: option.splits)
  have "take (m_size (objs s a)) xs = take (m_size (objs s a)) ys"
    using assms(3,4) a b False by (simp add: elems_def)
  moreover have "equal_n (m_size (objs s a)) (heap s) (Some pa) 0 (Some pb) 0
      = Inr (take (m_size (objs s a)) (drop 0 xs) = take (m_size (objs s a)) (drop 0 ys))"
    using a b assms(4) by (intro equal_n_at) simp_all
  ultimately show ?thesis
    using a b assms(4) by (simp add: operator_eq_def std_equal_def)
qed

lemma call_Inr:
  "call this m s = Inr s' \<longleftrightarrow>
   (\<exists>h v. m (heap s, objs s this) = Inr (h, v) \<and> s' = \<lparr>heap = h, objs = (objs s)(this := v)\<rparr>)"
  by (auto simp: call_def bnd_eq_Inr)

text \<open>
  C8. Let \<open>a\<close> be a well-formed vector and \<open>b\<close> another object. Copy-constructing \<open>b\<close> from
  \<open>a\<close> returns; afterwards \<open>a == b\<close> and \<open>b == a\<close> are true, \<open>b\<close> has the size and the
  elements of \<open>a\<close> and a capacity equal to that size, and \<open>a\<close> is as before. The array of
  \<open>b\<close> is null or differs from the array of \<open>a\<close>, and whatever mutating member function
  is then called on one of the two, the fields and the elements of the other stay as they
  are.
\<close>

theorem copy_constructor_independent:
  assumes ne: "a \<noteq> b" and ok: "valid (heap s) (objs s a)"
  shows "\<exists>s'. construct b (SimpleVector_copy T (objs s a)) s = Inr s'
     \<and> operator_eq a b s' = Inr True \<and> operator_eq b a s' = Inr True
     \<and> m_size (objs s' b) = m_size (objs s a)
     \<and> m_capacity (objs s' b) = m_size (objs s a)
     \<and> elems (heap s') (objs s' b) = elems (heap s) (objs s a)
     \<and> objs s' a = objs s a
     \<and> elems (heap s') (objs s' a) = elems (heap s) (objs s a)
     \<and> (m_items (objs s' b) = None \<or> m_items (objs s' b) \<noteq> m_items (objs s' a))
     \<and> (\<forall>m s''. call b (invoke T m) s' = Inr s'' \<longrightarrow>
           objs s'' a = objs s' a
           \<and> elems (heap s'') (objs s'' a) = elems (heap s') (objs s' a))
     \<and> (\<forall>m s''. call a (invoke T m) s' = Inr s'' \<longrightarrow>
           objs s'' b = objs s' b
           \<and> elems (heap s'') (objs s'' b) = elems (heap s') (objs s' b))"
proof -
  let ?h = "heap s" and ?va = "objs s a"
  obtain h' v' where cp: "SimpleVector_copy T ?va ?h = Inr (h', v')"
    and sz: "m_size v' = m_size ?va" and cap: "m_capacity v' = m_size ?va"
    and ok': "valid h' v'" and el: "elems h' v' = elems ?h ?va"
    and fr: "frame (length ?h) None ?h h'"
    and ptr: "if m_size ?va = 0 then m_items v' = None \<and> h' = ?h
              else m_items v' = Some (length ?h) \<and> length h' = Suc (length ?h)"
    using SimpleVector_copy_result [OF ok, of T] by blast
  let ?s = "\<lparr>heap = h', objs = (objs s)(b := v')\<rparr>"
  have run: "construct b (SimpleVector_copy T ?va) s = Inr ?s"
    using cp by (simp add: construct_def)
  have below: "\<forall>c. m_items ?va = Some c \<longrightarrow> c < length ?h"
    using ok by (auto simp: valid_def split: option.splits dest: block_lt)
  have len: "length ?h \<le> length h'"
    using fr by (simp add: frame_def)
  have a_el: "elems h' ?va = elems ?h ?va"
    using fr below by (intro elems_frame) auto
  have a_ok: "valid h' ?va"
    using ok fr below by (auto simp: valid_def frame_def split: option.splits)
  have apart: "m_items v' = None \<or> m_items v' \<noteq> m_items ?va"
  proof (cases "m_size ?va = 0")
    case True
    then show ?thesis using ptr by simp
  next
    case False
    then have "m_items v' = Some (length ?h)" using ptr by simp
    moreover have "m_items ?va \<noteq> Some (length ?h)" using below by auto
    ultimately show ?thesis by simp
  qed
  have eq1: "operator_eq a b ?s = Inr True"
    using ne a_ok ok' a_el el sz by (intro operator_eq_same_elems) simp_all
  have eq2: "operator_eq b a ?s = Inr True"
    using ne a_ok ok' a_el el sz by (intro operator_eq_same_elems) simp_all
  have mut_b: "objs s'' a = ?va \<and> elems (heap s'') (objs s'' a) = elems h' ?va"
    if c: "call b (invoke T m) ?s = Inr s''" for m s''
  proof -
    obtain h2 v2 where inv: "invoke T m (h', v') = Inr (h2, v2)"
      and s'': "s'' = \<lparr>heap = h2, objs = ((objs s)(b := v'))(b := v2)\<rparr>"
      using c unfolding call_Inr by auto
    have fr2: "frame (length h') (m_items v') h' h2"
      using frame_invoke [OF inv frame_refl, of "length h'" "m_items v'"] by simp
    have "m_items ?va = None \<or> m_items ?va \<noteq> m_items v'"
      using apart by auto
    moreover have "\<forall>c. m_items ?va = Some c \<longrightarrow> c < length h'"
      using below len by auto
    ultimately have "elems h2 ?va = elems h' ?va"
      by (rule elems_frame [OF fr2])
    then show ?thesis
      using ne s'' by simp
  qed
  have mut_a: "objs s'' b = v' \<and> elems (heap s'') (objs s'' b) = elems h' v'"
    if c: "call a (invoke T m) ?s = Inr s''" for m s''
  proof -
    obtain h2 v2 where inv: "invoke T m (h', ?va) = Inr (h2, v2)"
      and s'': "s'' = \<lparr>heap = h2, objs = ((objs s)(b := v'))(a := v2)\<rparr>"
      using c ne unfolding call_Inr by auto
    have fr2: "frame (length h') (m_items ?va) h' h2"
      using frame_invoke [OF inv frame_refl, of "length h'" "m_items ?va"] by simp
    have "\<forall>c. m_items v' = Some c \<longrightarrow> c < length h'"
      using ptr by (auto split: if_splits)
    with apart have "elems h2 v' = elems h' v'"
      by (rule elems_frame [OF fr2])
    then show ?thesis
      using ne s'' by simp
  qed
  show ?thesis
    using run eq1 eq2 sz cap el a_el apart mut_a mut_b ne
    by (intro exI [of _ ?s]) (simp, metis)
qed

theorem copy_constructor_independent_witness:
  "(0 :: nat) \<noteq> 2 \<and> valid (heap two_vectors) (objs two_vectors 0)
   \<and> (\<exists>s'. construct 2 (SimpleVector_copy int_type (objs two_vectors 0)) two_vectors = Inr s'
          \<and> operator_eq 0 2 s' = Inr True
          \<and> m_size (objs s' 2) = 3 \<and> m_capacity (objs s' 2) = 3
          \<and> elems (heap s') (objs s' 2) = Some [1, 2, 3]
          \<and> (\<forall>m s''. call 2 (invoke int_type m) s' = Inr s'' \<longrightarrow>
                elems (heap s'') (objs s'' 0) = Some [1, 2, 3]))"
proof -
  have ne: "(0 :: nat) \<noteq> 2" by simp
  have ok0: "valid (heap two_vectors) (objs two_vectors 0)"
    by (simp add: two_vectors_def valid_def block_def)
  have a: "m_size (objs two_vectors 0) = 3"
    and el: "elems (heap two_vectors) (objs two_vectors 0) = Some [1, 2, 3]"
    by (simp_all add: two_vectors_def elems_def block_def)
  from copy_constructor_independent [OF ne ok0, of int_type]
  obtain s' where "construct 2 (SimpleVector_copy int_type (objs two_vectors 0)) two_vectors = Inr s'"
    and "operator_eq 0 2 s' = Inr True"
    and "m_size (objs s' 2) = m_size (objs two_vectors 0)"
    and "m_capacity (objs s' 2) = m_size (objs two_vectors 0)"
    and "elems (heap s') (objs s' 2) = elems (heap two_vectors) (objs two_vectors 0)"
    and "elems (heap s') (objs s' 0) = elems (heap two_vectors) (objs two_vectors 0)"
    and "\<forall>m s''. call 2 (invoke int_type m) s' = Inr s'' \<longrightarrow>
           objs s'' 0 = objs s' 0
           \<and> elems (heap s'') (objs s'' 0) = elems (heap s') (objs s' 0)"
    by blast
  then show ?thesis
    using ne ok0 a el by (intro conjI exI [of _ s']) (simp_all, metis)
qed

section \<open>Well-formed vectors stay well formed\<close>

lemma shape_block:
  "shape h' = shape h \<Longrightarrow> map_option length (block h' a) = map_option length (block h a)"
proof -
  assume e: "shape h' = shape h"
  then have l: "length h' = length h"
    unfolding shape_def by (rule map_eq_imp_length_eq)
  show ?thesis
  proof (cases "a < length h")
    case True
    then have "shape h' ! a = shape h ! a" using e by simp
    then show ?thesis using True l by (simp add: shape_def block_def)
  next
    case False
    then show ?thesis using l by (simp add: block_def)
  qed
qed

lemma shape_update:
  "block h a = Some blk \<Longrightarrow> length blk' = length blk \<Longrightarrow> shape (h[a := Some blk']) = shape h"
proof -
  assume b: "block h a = Some blk" and l: "length blk' = length blk"
  have a: "a < length h" "h ! a = Some blk"
    using b by (simp_all add: block_def split: if_splits)
  have "shape (h[a := Some blk']) = (shape h)[a := Some (length blk)]"
    using l by (simp add: shape_def map_update)
  also have "\<dots> = (shape h)[a := shape h ! a]"
    using a by (simp add: shape_def)
  also have "\<dots> = shape h"
    by (rule list_update_id)
  finally show ?thesis .
qed

lemma store_shape: "store h p i x = Inr h' \<Longrightarrow> shape h' = shape h"
  by (auto simp: store_def shape_update split: option.splits if_splits)


lemma fill_n_shape: "fill_n k h p i x = Inr h' \<Longrightarrow> shape h' = shape h"
proof (induction k arbitrary: h i)
  case 0
  then show ?case by simp
next
  case (Suc k)
  then obtain h1 where "store h p i x = Inr h1" "fill_n k h1 p (Suc i) x = Inr h'"
    by (auto simp: bnd_eq_Inr)
  then show ?case
    using Suc.IH [of h1 "Suc i"] store_shape [of h p i x h1] by simp
qed

lemma copy_init_shape: "copy_init xs h p i = Inr h' \<Longrightarrow> shape h' = shape h"
proof (induction xs arbitrary: h i)
  case Nil
  then show ?case by simp
next
  case (Cons x xs)
  then obtain h1 where "store h p i x = Inr h1" "copy_init xs h1 p (Suc i) = Inr h'"
    by (auto simp: bnd_eq_Inr)
  then show ?case
    using Cons.IH [of h1 "Suc i"] store_shape [of h p i x h1] by simp
qed

lemma copy_n_shape: "copy_n k h src i p j = Inr h' \<Longrightarrow> shape h' = shape h"
proof (induction k arbitrary: h i j)
  case 0
  then show ?case by simp
next
  case (Suc k)
  then obtain x h1 where "store h p j x = Inr h1" "copy_n k h1 src (Suc i) p (Suc j) = Inr h'"
    by (auto simp: bnd_eq_Inr)
  then show ?case
    using Suc.IH [of h1 "Suc i" "Suc j"] store_shape [of h p j x h1] by simp
qed

lemma copy_backward_n_shape: "copy_backward_n k h src i p j = Inr h' \<Longrightarrow> shape h' = shape h"
proof (induction k arbitrary: h i j)
  case 0
  then show ?case by simp
next
  case (Suc k)
  then obtain x h1 where "store h p (j - 1) x = Inr h1"
    "copy_backward_n k h1 src (i - 1) p (j - 1) = Inr h'"
    by (auto simp: bnd_eq_Inr split: if_splits)
  then show ?case
    using Suc.IH [of h1 "i - 1" "j - 1"] store_shape [of h p "j - 1" x h1] by simp
qed

lemma move_n_shape: "move_n T k h src i p j = Inr h' \<Longrightarrow> shape h' = shape h"
proof (induction k arbitrary: h i j)
  case 0
  then show ?case by simp
next
  case (Suc k)
  then obtain x h1 h2 where "store h p j x = Inr h1" "store h1 src i (moved T x) = Inr h2"
    "move_n T k h2 src (Suc i) p (Suc j) = Inr h'"
    by (auto simp: bnd_eq_Inr)
  then show ?case
    using Suc.IH [of h2 "Suc i" "Suc j"] store_shape [of h p j x h1]
      store_shape [of h1 src i "moved T x" h2] by simp
qed

lemma move_backward_n_shape: "move_backward_n T k h src i p j = Inr h' \<Longrightarrow> shape h' = shape h"
proof (induction k arbitrary: h i j)
  case 0
  then show ?case by simp
next
  case (Suc k)
  then obtain x h1 h2 where "store h p (j - 1) x = Inr h1"
    "store h1 src (i - 1) (moved T x) = Inr h2"
    "move_backward_n T k h2 src (i - 1) p (j - 1) = Inr h'"
    by (auto simp: bnd_eq_Inr split: if_splits)
  then show ?case
    using Suc.IH [of h2 "i - 1" "j - 1"] store_shape [of h p "j - 1" x h1]
      store_shape [of h1 src "i - 1" "moved T x" h2] by simp
qed

lemma Fill_shape: "Fill T p i j h = Inr h' \<Longrightarrow> shape h' = shape h"
  by (auto simp: Fill_def split: if_splits dest: fill_n_shape)

lemma std_fill_shape: "std_fill h p i j x = Inr h' \<Longrightarrow> shape h' = shape h"
  by (auto simp: std_fill_def split: if_splits dest: fill_n_shape)

lemma std_copy_shape: "std_copy h src i j p d = Inr h' \<Longrightarrow> shape h' = shape h"
  by (auto simp: std_copy_def split: if_splits dest: copy_n_shape)

lemma std_copy_backward_shape: "std_copy_backward h src i j p d = Inr h' \<Longrightarrow> shape h' = shape h"
  by (auto simp: std_copy_backward_def split: if_splits dest: copy_backward_n_shape)

lemma std_move_shape: "std_move T h src i j p d = Inr h' \<Longrightarrow> shape h' = shape h"
  by (auto simp: std_move_def split: if_splits dest: move_n_shape)

lemma std_move_backward_shape: "std_move_backward T h src i j p d = Inr h' \<Longrightarrow> shape h' = shape h"
  by (auto simp: std_move_backward_def split: if_splits dest: move_backward_n_shape)

lemma valid_shape: "shape h' = shape h \<Longrightarrow> valid h' v = valid h v"
proof -
  assume e: "shape h' = shape h"
  show ?thesis
  proof (cases "m_items v")
    case None
    then show ?thesis by (simp add: valid_def)
  next
    case (Some a)
    have "map_option length (block h' a) = map_option length (block h a)"
      using e by (rule shape_block)
    then show ?thesis
      using Some by (cases "block h a"; cases "block h' a") (auto simp: valid_def)
  qed
qed

lemmas shape_steps =
  store_shape Fill_shape std_fill_shape copy_init_shape std_copy_shape std_copy_backward_shape
  std_move_shape std_move_backward_shape

lemma valid_iff_shape:
  "valid h v \<longleftrightarrow>
     m_size v \<le> m_capacity v \<and>
     (case m_items v of None \<Rightarrow> m_capacity v = 0
      | Some a \<Rightarrow> a < length (shape h) \<and>
          (case shape h ! a of None \<Rightarrow> False | Some n \<Rightarrow> m_capacity v \<le> n))"
  by (auto simp: valid_def shape_def block_def split: option.splits)

lemma new_shape:
  "ArrayPtr_new T n h = (p, h1) \<Longrightarrow>
   (n = 0 \<and> p = None \<and> h1 = h) \<or> (0 < n \<and> p = Some (length (shape h)) \<and> shape h1 = shape h @ [Some n])"
  by (auto simp: ArrayPtr_new_def shape_def split: if_splits)

lemma delete_shape:
  "ArrayPtr_delete p h = Inr h' \<Longrightarrow>
   (p = None \<and> h' = h) \<or> (\<exists>a. p = Some a \<and> a < length (shape h) \<and> shape h' = (shape h)[a := None])"
  by (auto simp: ArrayPtr_delete_def shape_def block_def map_update split: option.splits if_splits)

lemma Resize_keeps:
  assumes "Resize T k (h, v) = Inr (h', v')" and "valid h v"
  shows "keeps h v h' v'"
  using assms
  by (auto simp: keeps_def Resize_def Let_def bnd_eq_Inr valid_iff_shape nth_append nth_list_update
      split: if_splits prod.splits option.splits
      dest!: shape_steps new_shape delete_shape)

lemma PushBack_keeps:
  assumes "PushBack T (Value x) (h, v) = Inr (h', v')" and "valid h v"
  shows "keeps h v h' v'"
proof (cases "m_size v < m_capacity v")
  case True
  with assms show ?thesis
    by (auto simp: keeps_def PushBack_def bnd_eq_Inr valid_iff_shape
        split: option.splits dest!: shape_steps)
next
  case False
  with assms obtain h1 v1 where r: "Resize T (m_capacity v + 1) (h, v) = Inr (h1, v1)"
    and st: "store h1 (m_items v1) (m_size v1 - 1) x = Inr h'" and v': "v' = v1"
    by (auto simp: PushBack_def bnd_eq_Inr valid_def split: if_splits)
  have "keeps h v h1 v1"
    using r assms(2) by (rule Resize_keeps)
  moreover have "shape h' = shape h1"
    using st by (rule store_shape)
  ultimately show ?thesis
    by (simp add: keeps_def v' valid_shape [of h' h1])
qed

lemma Insert_keeps:
  assumes "Insert T pos x (h, v) = Inr (r, h', v')" and "valid h v"
  shows "keeps h v h' v'"
  using assms
  by (auto simp: keeps_def Insert_def Let_def bnd_eq_Inr valid_iff_shape nth_append nth_list_update
      split: if_splits prod.splits option.splits
      dest!: shape_steps new_shape delete_shape)

lemma Insert_move_keeps:
  assumes "Insert_move T pos x (h, v) = Inr (r, h', v')" and "valid h v"
  shows "keeps h v h' v'"
  using assms
  by (auto simp: keeps_def Insert_move_def Let_def bnd_eq_Inr valid_iff_shape nth_append nth_list_update
      split: if_splits prod.splits option.splits
      dest!: shape_steps new_shape delete_shape)

lemma Erase_keeps:
  assumes "Erase T pos (h, v) = Inr (r, h', v')" and "valid h v"
  shows "keeps h v h' v'"
  using assms
  by (auto simp: keeps_def Erase_def Let_def bnd_eq_Inr valid_iff_shape
      split: if_splits prod.splits option.splits
      dest!: shape_steps)

lemma Reserve_keeps:
  assumes "Reserve T k (h, v) = Inr (h', v')" and "valid h v"
  shows "keeps h v h' v'"
  using assms
  by (auto simp: keeps_def Reserve_def Let_def bnd_eq_Inr valid_iff_shape nth_append nth_list_update
      split: if_splits prod.splits option.splits
      dest!: shape_steps new_shape delete_shape)


lemma invoke_keeps:
  assumes r: "invoke T m (h, v) = Inr (h', v')" and ok: "valid h v"
  shows "keeps h v h' v'"
proof (cases m)
  case (M_PushBack x)
  with r ok show ?thesis using PushBack_keeps [of T x h v h' v'] by simp
next
  case (M_PushBack_move x)
  with r ok show ?thesis
    using PushBack_keeps [of T x h v h' v'] by (simp add: PushBack_move_eq)
next
  case M_PopBack
  with r ok show ?thesis
    by (auto simp: keeps_def PopBack_def valid_def split: if_splits option.splits)
next
  case (M_Insert pos x)
  with r ok show ?thesis by (auto simp: bnd_eq_Inr dest: Insert_keeps)
next
  case (M_Insert_move pos x)
  with r ok show ?thesis by (auto simp: bnd_eq_Inr dest: Insert_move_keeps)
next
  case (M_Erase pos)
  with r ok show ?thesis by (auto simp: bnd_eq_Inr dest: Erase_keeps)
next
  case (M_Resize k)
  with r ok show ?thesis using Resize_keeps [of T k h v h' v'] by simp
next
  case (M_Reserve k)
  with r ok show ?thesis using Reserve_keeps [of T k h v h' v'] by simp
next
  case M_Clear
  with r ok show ?thesis
    by (auto simp: keeps_def Clear_def valid_def split: option.splits)
next
  case (M_assign_at i x)
  with r ok show ?thesis
    by (auto simp: keeps_def assign_at_def bnd_eq_Inr valid_iff_shape
        split: option.splits dest!: shape_steps)
qed

lemma build_keeps:
  assumes "build T c h = Inr (h', v')"
  shows "keeps h SimpleVector_default h' v'"
proof (cases c)
  case (C_reserve k)
  have "valid h SimpleVector_default"
    by (simp add: valid_def SimpleVector_default_def)
  with assms C_reserve show ?thesis
    using Reserve_keeps [of T k h SimpleVector_default h' v']
    by (simp add: SimpleVector_reserve_def)
qed (use assms in \<open>auto simp: keeps_def SimpleVector_default_def SimpleVector_size_def
      SimpleVector_fill_def SimpleVector_init_def bnd_eq_Inr valid_iff_shape nth_append
      split: prod.splits option.splits dest!: shape_steps new_shape\<close>)

lemma SimpleVector_copy_keeps:
  assumes "SimpleVector_copy T other h = Inr (h', v')"
  shows "keeps h SimpleVector_default h' v'"
  using assms
  by (auto simp: keeps_def SimpleVector_default_def SimpleVector_copy_def bnd_eq_Inr
      valid_iff_shape nth_append
      split: prod.splits option.splits dest!: shape_steps new_shape)


lemma wf_state_put:
  assumes wf: "wf_state s" and k: "keeps (heap s) v h' v'"
    and v: "v = objs s this \<or> m_items v = None"
  shows "wf_state \<lparr>heap = h', objs = (objs s)(this := v')\<rparr>"
  unfolding wf_state_def
proof (intro conjI allI impI)
  have others: "valid h' (objs s i) \<and>
      (m_items (objs s i) = None \<or> m_items (objs s i) \<noteq> m_items v')" if "i \<noteq> this" for i
  proof -
    have "valid (heap s) (objs s i)" using wf by (simp add: wf_state_def)
    moreover have "m_items (objs s i) = None \<or> m_items (objs s i) \<noteq> m_items v"
    proof (cases "m_items v")
      case None
      then show ?thesis by auto
    next
      case (Some a)
      then have "v = objs s this" using v by simp
      moreover have "m_items (objs s i) = None
          \<or> m_items (objs s i) \<noteq> m_items (objs s this)"
        using wf that unfolding wf_state_def by blast
      ultimately show ?thesis by simp
    qed
    ultimately show ?thesis using k by (simp add: keeps_def)
  qed
  fix i
  show "valid (heap \<lparr>heap = h', objs = (objs s)(this := v')\<rparr>)
          (objs \<lparr>heap = h', objs = (objs s)(this := v')\<rparr> i)"
    using k others by (cases "i = this") (simp_all add: keeps_def)
  fix j
  assume "i \<noteq> j"
  then show "m_items (objs \<lparr>heap = h', objs = (objs s)(this := v')\<rparr> i) = None
      \<or> m_items (objs \<lparr>heap = h', objs = (objs s)(this := v')\<rparr> i)
        \<noteq> m_items (objs \<lparr>heap = h', objs = (objs s)(this := v')\<rparr> j)"
    using others [of i] others [of j] wf
    by (cases "i = this"; cases "j = this") (auto simp: wf_state_def)
qed


lemma swap_wf:
  assumes wf: "wf_state s"
  shows "wf_state (swap this other s)"
proof -
  define f where "f i = (if i = this then other else if i = other then this else i)" for i
  have o: "objs (swap this other s) i = objs s (f i)" for i
    by (simp add: swap_def Let_def f_def)
  have h: "heap (swap this other s) = heap s"
    by (simp add: swap_def Let_def)
  have inj: "i \<noteq> j \<Longrightarrow> f i \<noteq> f j" for i j
    by (auto simp: f_def split: if_splits)
  show ?thesis
    using wf inj unfolding wf_state_def o h by blast
qed

lemma new_keeps:
  assumes "ArrayPtr_new T n h = (p, h1)"
  shows "keeps h SimpleVector_default h1 \<lparr>m_items = p, m_capacity = 0, m_size = 0\<rparr>"
  using assms
  by (auto simp: keeps_def SimpleVector_default_def valid_iff_shape nth_append
      split: option.splits dest!: new_shape)

lemma delete_keeps:
  assumes "ArrayPtr_delete (m_items v) h = Inr h1" and "valid h v"
  shows "keeps h v h1 \<lparr>m_items = None, m_capacity = 0, m_size = 0\<rparr>"
  using assms
  by (auto simp: keeps_def valid_iff_shape nth_list_update
      split: option.splits if_splits dest!: delete_shape)

lemma copy_delete_keeps:
  assumes "SimpleVector_copy T other h = Inr (h1, temp)"
    and "ArrayPtr_delete (m_items v) h1 = Inr h2" and "valid h v"
  shows "keeps h v h2 temp"
  using assms
  by (auto simp: keeps_def SimpleVector_copy_def bnd_eq_Inr
      valid_iff_shape nth_append nth_list_update
      split: prod.splits option.splits if_splits dest!: shape_steps new_shape delete_shape)

lemma exec_wf:
  assumes r: "exec T c s = Inr s'" and wf: "wf_state s"
  shows "wf_state s'"
proof (cases c)
  case (Construct this k)
  with r obtain h' v' where b: "build T k (heap s) = Inr (h', v')"
    and s': "s' = \<lparr>heap = h', objs = (objs s)(this := v')\<rparr>"
    by (auto simp: construct_def bnd_eq_Inr)
  show ?thesis
    unfolding s' using wf build_keeps [OF b]
    by (rule wf_state_put) (simp add: SimpleVector_default_def)
next
  case (CopyConstruct this other)
  with r obtain h' v' where b: "SimpleVector_copy T (objs s other) (heap s) = Inr (h', v')"
    and s': "s' = \<lparr>heap = h', objs = (objs s)(this := v')\<rparr>"
    by (auto simp: construct_def bnd_eq_Inr)
  show ?thesis
    unfolding s' using wf SimpleVector_copy_keeps [OF b]
    by (rule wf_state_put) (simp add: SimpleVector_default_def)
next
  case (MoveConstruct this other)
  obtain p h1 where new: "ArrayPtr_new T (m_capacity (objs s other)) (heap s) = (p, h1)"
    by (cases "ArrayPtr_new T (m_capacity (objs s other)) (heap s)")
  let ?s1 = "\<lparr>heap = h1, objs = (objs s)(this := \<lparr>m_items = p, m_capacity = 0, m_size = 0\<rparr>)\<rparr>"
  have "wf_state ?s1"
    using wf new_keeps [OF new]
    by (rule wf_state_put) (simp add: SimpleVector_default_def)
  then have "wf_state (swap this other ?s1)"
    by (rule swap_wf)
  moreover have "s' = swap this other ?s1"
    using r MoveConstruct new by (simp add: SimpleVector_move_def)
  ultimately show ?thesis by simp
next
  case (Call this m)
  with r obtain h' v' where b: "invoke T m (heap s, objs s this) = Inr (h', v')"
    and s': "s' = \<lparr>heap = h', objs = (objs s)(this := v')\<rparr>"
    by (auto simp: call_Inr)
  have "valid (heap s) (objs s this)"
    using wf by (simp add: wf_state_def)
  with b have "keeps (heap s) (objs s this) h' v'"
    by (rule invoke_keeps)
  with wf show ?thesis
    unfolding s' by (rule wf_state_put) simp
next
  case (Swap this other)
  with r wf show ?thesis
    by (auto intro: swap_wf)
next
  case (CopyAssign this rhs)
  show ?thesis
  proof (cases "this = rhs")
    case True
    with r wf CopyAssign show ?thesis by (simp add: copy_assign_def)
  next
    case False
    with r CopyAssign obtain h1 temp h2
      where cp: "SimpleVector_copy T (objs s rhs) (heap s) = Inr (h1, temp)"
        and del: "ArrayPtr_delete (m_items (objs s this)) h1 = Inr h2"
        and s': "s' = \<lparr>heap = h2, objs = (objs s)(this := temp)\<rparr>"
      by (auto simp: copy_assign_def bnd_eq_Inr)
    have "valid (heap s) (objs s this)"
      using wf by (simp add: wf_state_def)
    with cp del have "keeps (heap s) (objs s this) h2 temp"
      by (rule copy_delete_keeps)
    with wf show ?thesis
      unfolding s' by (rule wf_state_put) simp
  qed
next
  case (MoveAssign this rhs)
  show ?thesis
  proof (cases "this = rhs")
    case True
    with r wf MoveAssign show ?thesis by (simp add: move_assign_def)
  next
    case False
    with r MoveAssign obtain h1
      where del: "ArrayPtr_delete (m_items (objs s this)) (heap s) = Inr h1"
        and s': "s' = \<lparr>heap = h1, objs = (objs s)
               (this := objs s rhs, rhs := \<lparr>m_items = None, m_capacity = 0, m_size = 0\<rparr>)\<rparr>"
      by (auto simp: move_assign_def Let_def bnd_eq_Inr)
    let ?s1 = "\<lparr>heap = h1,
                objs = (objs s)(this := \<lparr>m_items = None, m_capacity = 0, m_size = 0\<rparr>)\<rparr>"
    have "valid (heap s) (objs s this)"
      using wf by (simp add: wf_state_def)
    with del have "keeps (heap s) (objs s this) h1 \<lparr>m_items = None, m_capacity = 0, m_size = 0\<rparr>"
      by (rule delete_keeps)
    with wf have "wf_state ?s1"
      by (rule wf_state_put) simp
    then have "wf_state (swap this rhs ?s1)"
      by (rule swap_wf)
    moreover have "swap this rhs ?s1 = s'"
      using False by (simp add: swap_def Let_def s' fun_upd_twist)
    ultimately show ?thesis by simp
  qed
qed

lemma run_wf: "run T cs s = Inr s' \<Longrightarrow> wf_state s \<Longrightarrow> wf_state s'"
proof (induction cs arbitrary: s)
  case Nil
  then show ?case by simp
next
  case (Cons c cs)
  then show ?case
    by (auto simp: bnd_eq_Inr dest: exec_wf)
qed

lemma start_wf: "wf_state start"
  by (simp add: wf_state_def start_def valid_def SimpleVector_default_def)

text \<open>
  The theorems on single calls assume a well-formed vector. Every vector of every state
  that a program reaches is well formed, and owns its array alone.
\<close>

lemma reachable_valid:
  assumes "run T cs start = Inr s"
  shows "valid (heap s) (objs s i)"
  using run_wf [OF assms start_wf] by (simp add: wf_state_def)

section \<open>The invariant size \<open>\<le>\<close> capacity\<close>

text \<open>
  C9. A program is any list of constructor calls (default, size, size and value,
  initializer list, reserving, copy, move) and of calls of \<open>PushBack\<close>, \<open>PopBack\<close>,
  \<open>Insert\<close>, \<open>Erase\<close>, \<open>Resize\<close>, \<open>Reserve\<close>, \<open>Clear\<close>, \<open>operator[]\<close> assignment, \<open>swap\<close>, copy
  assignment and move assignment on any objects. In every state that such a program
  reaches without an exception, a failed assertion or undefined behaviour, every object
  has \<open>size_ \<le> capacity_\<close>.
\<close>

theorem size_le_capacity_invariant:
  assumes "run T cs start = Inr s"
  shows "m_size (objs s i) \<le> m_capacity (objs s i)"
  using run_wf [OF assms start_wf] by (simp add: wf_state_def valid_def)

theorem size_le_capacity_invariant_witness:
  "\<exists>s. run int_type example_program start = Inr s
       \<and> (\<forall>i. m_size (objs s i) \<le> m_capacity (objs s i))
       \<and> m_size (objs s 1) = 25 \<and> m_capacity (objs s 1) = 40"
proof -
  have "(case run int_type example_program start of Inl e \<Rightarrow> None
         | Inr s \<Rightarrow> Some (m_size (objs s 1), m_capacity (objs s 1))) = Some (25, 40)"
    by code_simp
  then obtain s where s: "run int_type example_program start = Inr s"
    and "m_size (objs s 1) = 25" and "m_capacity (objs s 1) = 40"
    by (auto split: sum.splits)
  moreover have "\<forall>i. m_size (objs s i) \<le> m_capacity (objs s i)"
    using size_le_capacity_invariant [OF s] by blast
  ultimately show ?thesis by blast
qed

end
